theory Spec2Isabelle
  imports Main "HOL-Library.AList"
begin

section \<open>JavaScript values\<close>

text \<open>
  The module \<^verbatim>\<open>lib/Utils/ios-webview-helper.js\<close> is dynamically typed: its input is
  whatever the caller passes, and its output is a tree of plain objects, arrays, strings,
  numbers and booleans. A value of the model is such a tree.

  \<^item> An object is the list of its own enumerable properties in the order in which they
    were defined; an object of JavaScript has each key once. (JavaScript enumerates keys
    that are array indices first; the model does not, and nothing below depends on the
    place of such a key.)
  \<^item> An array is dense: it has no holes.
  \<^item> A string is a list of code units; the model has the code units 0 to 255.
  \<^item> A number is an integer; the model agrees with JavaScript on the safe integers.
    Fractions, NaN and the infinities are outside the model, and so are functions,
    symbols, BigInts, getters, \<^verbatim>\<open>toJSON\<close> methods and cyclic objects.
\<close>

datatype jsval =
    JUndefined
  | JNull
  | JBool bool
  | JNum int
  | JStr string
  | JArr "jsval list"
  | JObj "(string \<times> jsval) list"

text \<open>
  \<open>TypeError\<close> and \<open>SyntaxError\<close> are the exceptions of JavaScript that this module can
  meet. The other two are outcomes of the model only: \<open>Unmodelled\<close> marks a JSON text that
  holds a numeral or an escape outside the value model, \<open>OutOfFuel\<close> a parser run that
  used up its recursion budget (which \<^verbatim>\<open>JSON.parse\<close> of the model never does, lemma
  \<open>JSON_parse_fuel\<close>). A \<^verbatim>\<open>catch\<close> of the source catches the exceptions of
  JavaScript and never an outcome of the model.
\<close>

datatype js_error = TypeError | SyntaxError | Unmodelled | OutOfFuel

definition is_exception :: "js_error \<Rightarrow> bool" where
  "is_exception e = (e = TypeError \<or> e = SyntaxError)"

definition nullish :: "jsval \<Rightarrow> bool" where
  "nullish v = (v = JUndefined \<or> v = JNull)"

text \<open>ToBoolean: what \<^verbatim>\<open>if (v)\<close>, \<^verbatim>\<open>!!v\<close> and \<^verbatim>\<open>v || w\<close> test.\<close>

fun truthy :: "jsval \<Rightarrow> bool" where
  "truthy JUndefined = False"
| "truthy JNull = False"
| "truthy (JBool b) = b"
| "truthy (JNum n) = (n \<noteq> 0)"
| "truthy (JStr s) = (s \<noteq> [])"
| "truthy (JArr xs) = True"
| "truthy (JObj kvs) = True"

text \<open>\<^verbatim>\<open>a || b\<close>; both operands are pure wherever the module uses it.\<close>

definition js_or :: "jsval \<Rightarrow> jsval \<Rightarrow> jsval" where
  "js_or a b = (if truthy a then a else b)"

text \<open>
  \<^verbatim>\<open>v.k\<close> on a value that is neither \<^verbatim>\<open>undefined\<close> nor \<^verbatim>\<open>null\<close> (on those the read
  throws a TypeError, which every caller below tests first). The module reads the keys
  \<^verbatim>\<open>type\<close>, \<^verbatim>\<open>name\<close>, \<^verbatim>\<open>url\<close> and the like only; strings, numbers, booleans and arrays
  have none of them.
\<close>

fun get_prop :: "jsval \<Rightarrow> string \<Rightarrow> jsval" where
  "get_prop (JObj kvs) k = (case map_of kvs k of None \<Rightarrow> JUndefined | Some v \<Rightarrow> v)"
| "get_prop v k = JUndefined"

text \<open>A destructuring default, \<^verbatim>\<open>{ k = d } = options\<close>: taken when the property is \<^verbatim>\<open>undefined\<close>.\<close>

definition with_default :: "jsval \<Rightarrow> jsval \<Rightarrow> jsval" where
  "with_default v d = (if v = JUndefined then d else v)"

section \<open>Numbers and strings as text\<close>

definition digit_char :: "nat \<Rightarrow> char" where
  "digit_char d = ''0123456789'' ! d"

fun digits_of :: "nat \<Rightarrow> string" where
  "digits_of n = (if n < 10 then [digit_char n] else digits_of (n div 10) @ [digit_char (n mod 10)])"

declare digits_of.simps [simp del]

definition Number_toString :: "int \<Rightarrow> string" where
  "Number_toString n = (if n < 0 then CHR ''-'' # digits_of (nat (- n)) else digits_of (nat n))"

definition is_digit :: "char \<Rightarrow> bool" where
  "is_digit c = (c \<in> set ''0123456789'')"

definition digit_val :: "char \<Rightarrow> nat" where
  "digit_val c = of_char c - 48"

definition digits_value :: "string \<Rightarrow> nat" where
  "digits_value ds = foldl (\<lambda>a c. 10 * a + digit_val c) 0 ds"

definition hex_char :: "nat \<Rightarrow> char" where
  "hex_char d = ''0123456789abcdef'' ! d"

definition is_hex :: "char \<Rightarrow> bool" where
  "is_hex c = (c \<in> set ''0123456789abcdefABCDEF'')"

definition hex_val :: "char \<Rightarrow> nat" where
  "hex_val c =
     (if c \<in> set ''abcdef'' then of_char c - 87
      else if c \<in> set ''ABCDEF'' then of_char c - 55
      else of_char c - 48)"

fun join_comma :: "string list \<Rightarrow> string" where
  "join_comma [] = []"
| "join_comma [x] = x"
| "join_comma (x # y # ys) = x @ CHR '','' # join_comma (y # ys)"

text \<open>
  ToString, which \<^verbatim>\<open>JSON.parse\<close> applies to its argument first. An array joins its
  elements with commas, \<^verbatim>\<open>undefined\<close> and \<^verbatim>\<open>null\<close> elements as the empty string.
\<close>

primrec ToString :: "jsval \<Rightarrow> string" where
  "ToString JUndefined = ''undefined''"
| "ToString JNull = ''null''"
| "ToString (JBool b) = (if b then ''true'' else ''false'')"
| "ToString (JNum n) = Number_toString n"
| "ToString (JStr s) = s"
| "ToString (JArr xs) =
     join_comma (map2 (\<lambda>x t. if nullish x then [] else t) xs (map ToString xs))"
| "ToString (JObj kvs) = ''[object Object]''"

section \<open>JSON.stringify\<close>

text \<open>
  QuoteJSONString: the quotation mark and the backslash are escaped, the control
  characters are written \<^verbatim>\<open>\b \t \n \f \r\<close> or \<^verbatim>\<open>\u00XX\<close> in lower-case hexadecimal, every
  other code unit stands for itself.
\<close>

definition quote_char :: "char \<Rightarrow> string" where
  "quote_char c =
     (if c = CHR 0x22 then [CHR 0x5C, CHR 0x22]
      else if c = CHR 0x5C then [CHR 0x5C, CHR 0x5C]
      else if c = CHR 0x08 then [CHR 0x5C, CHR ''b'']
      else if c = CHR 0x09 then [CHR 0x5C, CHR ''t'']
      else if c = CHR 0x0A then [CHR 0x5C, CHR ''n'']
      else if c = CHR 0x0C then [CHR 0x5C, CHR ''f'']
      else if c = CHR 0x0D then [CHR 0x5C, CHR ''r'']
      else if of_char c < (32 :: nat) then
        [CHR 0x5C, CHR ''u'', CHR ''0'', CHR ''0'',
         hex_char (of_char c div 16), hex_char (of_char c mod 16)]
      else [c])"

definition QuoteJSONString :: "string \<Rightarrow> string" where
  "QuoteJSONString s = CHR 0x22 # concat (map quote_char s) @ [CHR 0x22]"

text \<open>
  SerializeJSONProperty, with no replacer and no indentation: \<open>None\<close> is the
  \<^verbatim>\<open>undefined\<close> that \<^verbatim>\<open>JSON.stringify(undefined)\<close> returns. An \<^verbatim>\<open>undefined\<close> element of an
  array is written \<^verbatim>\<open>null\<close>; a property whose value is \<^verbatim>\<open>undefined\<close> is left out.
\<close>

definition member_text :: "string \<times> string option \<Rightarrow> string option" where
  "member_text p =
     (case snd p of None \<Rightarrow> None | Some t \<Rightarrow> Some (QuoteJSONString (fst p) @ CHR '':'' # t))"

definition element_text :: "string option \<Rightarrow> string" where
  "element_text r = (case r of None \<Rightarrow> ''null'' | Some t \<Rightarrow> t)"

primrec SerializeJSONProperty :: "jsval \<Rightarrow> string option" where
  "SerializeJSONProperty JUndefined = None"
| "SerializeJSONProperty JNull = Some ''null''"
| "SerializeJSONProperty (JBool b) = Some (if b then ''true'' else ''false'')"
| "SerializeJSONProperty (JNum n) = Some (Number_toString n)"
| "SerializeJSONProperty (JStr s) = Some (QuoteJSONString s)"
| "SerializeJSONProperty (JArr xs) =
     Some (CHR ''['' # join_comma (map element_text (map SerializeJSONProperty xs)) @ '']'')"
| "SerializeJSONProperty (JObj kvs) =
     Some (CHR ''{'' #
       join_comma (List.map_filter member_text (map (map_prod id SerializeJSONProperty) kvs))
       @ ''}'')"

definition JSON_stringify :: "jsval \<Rightarrow> jsval" where
  "JSON_stringify v = (case SerializeJSONProperty v of None \<Rightarrow> JUndefined | Some t \<Rightarrow> JStr t)"

section \<open>JSON.parse\<close>

definition is_ws :: "char \<Rightarrow> bool" where
  "is_ws c = (c = CHR 0x20 \<or> c = CHR 0x09 \<or> c = CHR 0x0A \<or> c = CHR 0x0D)"

definition skip_ws :: "string \<Rightarrow> string" where
  "skip_ws s = dropWhile is_ws s"

definition unescape :: "char \<Rightarrow> char option" where
  "unescape e =
     (if e = CHR 0x22 then Some (CHR 0x22)
      else if e = CHR 0x5C then Some (CHR 0x5C)
      else if e = CHR ''/'' then Some (CHR ''/'')
      else if e = CHR ''b'' then Some (CHR 0x08)
      else if e = CHR ''t'' then Some (CHR 0x09)
      else if e = CHR ''n'' then Some (CHR 0x0A)
      else if e = CHR ''f'' then Some (CHR 0x0C)
      else if e = CHR ''r'' then Some (CHR 0x0D)
      else None)"

definition cons_char :: "char \<Rightarrow> js_error + string \<times> string \<Rightarrow> js_error + string \<times> string" where
  "cons_char c r = (case r of Inl e \<Rightarrow> Inl e | Inr (s, rest) \<Rightarrow> Inr (c # s, rest))"

text \<open>
  The characters of a string literal, after its opening quotation mark, up to and
  including the closing one. An escape \<^verbatim>\<open>\uXXXX\<close> of a code unit above 255 is outside the
  model.
\<close>

fun parse_chars :: "string \<Rightarrow> js_error + string \<times> string" where
  "parse_chars [] = Inl SyntaxError"
| "parse_chars (c # cs) =
     (if c = CHR 0x22 then Inr ([], cs)
      else if c = CHR 0x5C then
        (case cs of
           [] \<Rightarrow> Inl SyntaxError
         | e # cs' \<Rightarrow>
             if e = CHR ''u'' then
               (case cs' of
                  h1 # h2 # h3 # h4 # cs'' \<Rightarrow>
                    if is_hex h1 \<and> is_hex h2 \<and> is_hex h3 \<and> is_hex h4 then
                      (if hex_val h1 = 0 \<and> hex_val h2 = 0 then
                         cons_char (char_of (16 * hex_val h3 + hex_val h4)) (parse_chars cs'')
                       else Inl Unmodelled)
                    else Inl SyntaxError
                | _ \<Rightarrow> Inl SyntaxError)
             else
               (case unescape e of
                  None \<Rightarrow> Inl SyntaxError
                | Some d \<Rightarrow> cons_char d (parse_chars cs')))
      else if of_char c < (32 :: nat) then Inl SyntaxError
      else cons_char c (parse_chars cs))"

text \<open>
  A number: an optional minus sign, then \<^verbatim>\<open>0\<close> or a numeral with no leading zero. A
  fraction or an exponent is outside the model.
\<close>

definition parse_number :: "string \<Rightarrow> js_error + jsval \<times> string" where
  "parse_number s =
     (let neg = (s \<noteq> [] \<and> hd s = CHR ''-'');
          s1 = (if neg then tl s else s);
          ds = takeWhile is_digit s1;
          rest = dropWhile is_digit s1
      in if ds = [] then Inl SyntaxError
         else if hd ds = CHR ''0'' \<and> 1 < length ds then Inl SyntaxError
         else if rest \<noteq> [] \<and> hd rest \<in> set ''.eE'' then Inl Unmodelled
         else Inr (JNum (if neg then - int (digits_value ds) else int (digits_value ds)), rest))"

definition parse_literal :: "string \<Rightarrow> jsval \<Rightarrow> string \<Rightarrow> js_error + jsval \<times> string" where
  "parse_literal w v s =
     (if take (length w) s = w then Inr (v, drop (length w) s) else Inl SyntaxError)"

text \<open>
  The members of an object are defined in the order of the text: a key met again takes
  the later value and keeps its place.
\<close>

definition object_of_members :: "(string \<times> jsval) list \<Rightarrow> jsval" where
  "object_of_members kvs = JObj (fold (\<lambda>(k, v). AList.update k v) kvs [])"

text \<open>
  The recursive descent over a JSON value, its elements after \<^verbatim>\<open>[\<close> and its members
  after \<^verbatim>\<open>{\<close>. The first argument bounds the depth of the recursion: each call passes on
  one less, and a text of \<open>n\<close> characters never needs more than \<open>2 * n + 1\<close> (lemma
  \<open>parser_ok\<close>).
\<close>

fun parse_value :: "nat \<Rightarrow> string \<Rightarrow> js_error + jsval \<times> string"
  and parse_elements :: "nat \<Rightarrow> string \<Rightarrow> js_error + jsval list \<times> string"
  and parse_members :: "nat \<Rightarrow> string \<Rightarrow> js_error + (string \<times> jsval) list \<times> string"
where
  "parse_value 0 s = Inl OutOfFuel"
| "parse_value (Suc n) s =
     (case s of
        [] \<Rightarrow> Inl SyntaxError
      | c # cs \<Rightarrow>
          if c = CHR ''n'' then parse_literal ''null'' JNull s
          else if c = CHR ''t'' then parse_literal ''true'' (JBool True) s
          else if c = CHR ''f'' then parse_literal ''false'' (JBool False) s
          else if c = CHR 0x22 then
            (case parse_chars cs of
               Inl e \<Rightarrow> Inl e
             | Inr (str, rest) \<Rightarrow> Inr (JStr str, rest))
          else if c = CHR ''['' then
            (case skip_ws cs of
               [] \<Rightarrow> Inl SyntaxError
             | d # ds \<Rightarrow>
                 if d = CHR '']'' then Inr (JArr [], ds)
                 else
                   (case parse_elements n (d # ds) of
                      Inl e \<Rightarrow> Inl e
                    | Inr (vs, rest) \<Rightarrow> Inr (JArr vs, rest)))
          else if c = CHR ''{'' then
            (case skip_ws cs of
               [] \<Rightarrow> Inl SyntaxError
             | d # ds \<Rightarrow>
                 if d = CHR ''}'' then Inr (JObj [], ds)
                 else
                   (case parse_members n (d # ds) of
                      Inl e \<Rightarrow> Inl e
                    | Inr (kvs, rest) \<Rightarrow> Inr (object_of_members kvs, rest)))
          else if c = CHR ''-'' \<or> is_digit c then parse_number s
          else Inl SyntaxError)"
| "parse_elements 0 s = Inl OutOfFuel"
| "parse_elements (Suc n) s =
     (case parse_value n s of
        Inl e \<Rightarrow> Inl e
      | Inr (v, rest) \<Rightarrow>
          (case skip_ws rest of
             [] \<Rightarrow> Inl SyntaxError
           | c # cs \<Rightarrow>
               if c = CHR '','' then
                 (case parse_elements n (skip_ws cs) of
                    Inl e \<Rightarrow> Inl e
                  | Inr (vs, rest') \<Rightarrow> Inr (v # vs, rest'))
               else if c = CHR '']'' then Inr ([v], cs)
               else Inl SyntaxError))"
| "parse_members 0 s = Inl OutOfFuel"
| "parse_members (Suc n) s =
     (case s of
        [] \<Rightarrow> Inl SyntaxError
      | q # s1 \<Rightarrow>
          if q = CHR 0x22 then
            (case parse_chars s1 of
               Inl e \<Rightarrow> Inl e
             | Inr (k, rest) \<Rightarrow>
                 (case skip_ws rest of
                    [] \<Rightarrow> Inl SyntaxError
                  | c # cs \<Rightarrow>
                      if c = CHR '':'' then
                        (case parse_value n (skip_ws cs) of
                           Inl e \<Rightarrow> Inl e
                         | Inr (v, rest') \<Rightarrow>
                             (case skip_ws rest' of
                                [] \<Rightarrow> Inl SyntaxError
                              | c' # cs' \<Rightarrow>
                                  if c' = CHR '','' then
                                    (case parse_members n (skip_ws cs') of
                                       Inl e \<Rightarrow> Inl e
                                     | Inr (kvs, rest'') \<Rightarrow> Inr ((k, v) # kvs, rest''))
                                  else if c' = CHR ''}'' then Inr ([(k, v)], cs')
                                  else Inl SyntaxError))
                      else Inl SyntaxError))
          else Inl SyntaxError)"

text \<open>The whole text is one value, with white space around it and nothing else.\<close>

definition parse_text :: "string \<Rightarrow> js_error + jsval" where
  "parse_text s =
     (case parse_value (Suc (2 * length s)) (skip_ws s) of
        Inl e \<Rightarrow> Inl e
      | Inr (v, rest) \<Rightarrow> if skip_ws rest = [] then Inr v else Inl SyntaxError)"

definition JSON_parse :: "jsval \<Rightarrow> js_error + jsval" where
  "JSON_parse v = parse_text (ToString v)"

section \<open>Array methods\<close>

text \<open>
  \<^verbatim>\<open>xs.map(f)\<close> and \<^verbatim>\<open>xs.filter(p)\<close> on a dense array: the callback is applied to each
  element and its index in turn, and the first exception it throws ends the call.
\<close>

fun map_from :: "nat \<Rightarrow> ('a \<Rightarrow> nat \<Rightarrow> js_error + 'b) \<Rightarrow> 'a list \<Rightarrow> js_error + 'b list" where
  "map_from i f [] = Inr []"
| "map_from i f (x # xs) =
     (case f x i of
        Inl e \<Rightarrow> Inl e
      | Inr y \<Rightarrow> (case map_from (Suc i) f xs of Inl e \<Rightarrow> Inl e | Inr ys \<Rightarrow> Inr (y # ys)))"

definition Array_map :: "('a \<Rightarrow> nat \<Rightarrow> js_error + 'b) \<Rightarrow> 'a list \<Rightarrow> js_error + 'b list" where
  "Array_map f xs = map_from 0 f xs"

fun Array_filter :: "('a \<Rightarrow> js_error + bool) \<Rightarrow> 'a list \<Rightarrow> js_error + 'a list" where
  "Array_filter p [] = Inr []"
| "Array_filter p (x # xs) =
     (case p x of
        Inl e \<Rightarrow> Inl e
      | Inr b \<Rightarrow>
          (case Array_filter p xs of
             Inl e \<Rightarrow> Inl e
           | Inr ys \<Rightarrow> Inr (if b then x # ys else ys)))"

text \<open>
  The own enumerable properties that an object spread \<^verbatim>\<open>{...v}\<close> copies: those of an
  object, the indices of an array or of a string, none of any other value.
\<close>

definition spread_props :: "jsval \<Rightarrow> (string \<times> jsval) list" where
  "spread_props v =
     (case v of
        JObj kvs \<Rightarrow> kvs
      | JArr xs \<Rightarrow> map (\<lambda>(i, x). (digits_of i, x)) (enumerate 0 xs)
      | JStr s \<Rightarrow> map (\<lambda>(i, c). (digits_of i, JStr [c])) (enumerate 0 s)
      | _ \<Rightarrow> [])"

text \<open>\<^verbatim>\<open>{...base, ...v}\<close>: each copied property is assigned in turn.\<close>

definition object_spread :: "(string \<times> jsval) list \<Rightarrow> jsval \<Rightarrow> (string \<times> jsval) list" where
  "object_spread base v = fold (\<lambda>(k, x). AList.update k x) (spread_props v) base"

section \<open>createIOSWebviewMessage\<close>

text \<open>Lines 33 to 41: the test of the normalization and the params mapping.\<close>

definition is_webview_button :: "jsval \<Rightarrow> bool" where
  "is_webview_button button =
     (get_prop button ''type'' = JStr ''webview'' \<or> get_prop button ''name'' = JStr ''cta_url'')"

definition buttonParams :: "jsval \<Rightarrow> jsval" where
  "buttonParams button =
     JObj
      [(''display_text'', js_or (get_prop button ''displayText'') (get_prop button ''text'')),
       (''url'', get_prop button ''url''),
       (''webview_presentation'', js_or (get_prop button ''webviewPresentation'') JNull),
       (''payment_link_preview'',
          if get_prop button ''paymentLinkPreview'' \<noteq> JUndefined
          then get_prop button ''paymentLinkPreview'' else JBool False),
       (''landing_page_url'', js_or (get_prop button ''landingPageUrl'') (get_prop button ''url'')),
       (''webview_interaction'',
          if get_prop button ''webviewInteraction'' \<noteq> JUndefined
          then get_prop button ''webviewInteraction'' else JBool True)]"

text \<open>
  Lines 32 to 49, the callback of \<^verbatim>\<open>buttons.map\<close>. Reading \<^verbatim>\<open>button.type\<close> throws when
  the button is \<^verbatim>\<open>undefined\<close> or \<^verbatim>\<open>null\<close>.
\<close>

definition process_button :: "jsval \<Rightarrow> nat \<Rightarrow> js_error + jsval" where
  "process_button button index =
     (if nullish button then Inl TypeError
      else if is_webview_button button then
        Inr (JObj [(''name'', JStr ''cta_url''),
                   (''buttonParamsJson'', JSON_stringify (buttonParams button))])
      else Inr button)"

text \<open>Line 52, the callback of \<^verbatim>\<open>processedButtons.filter\<close>.\<close>

definition is_url_button :: "jsval \<Rightarrow> js_error + bool" where
  "is_url_button btn =
     (if nullish btn then Inl TypeError else Inr (get_prop btn ''name'' = JStr ''cta_url''))"

text \<open>
  Lines 57 to 60, the body of the \<^verbatim>\<open>try\<close>: the two values it assigns, or the exception
  that leaves both variables at their initial value, the empty string. The two
  assignments read the same two properties of the same value, so the second cannot throw
  after the first has completed. The second variable, \<^verbatim>\<open>landingPageUrl\<close>, is never read.
\<close>

definition try_parse_urls :: "jsval \<Rightarrow> js_error + jsval \<times> jsval" where
  "try_parse_urls button =
     (if nullish button then Inl TypeError
      else
        (case JSON_parse (get_prop button ''buttonParamsJson'') of
           Inl e \<Rightarrow> Inl e
         | Inr params \<Rightarrow>
             if nullish params then Inl TypeError
             else
               Inr (js_or (get_prop params ''url'')
                      (js_or (get_prop params ''landing_page_url'') (JStr [])),
                    js_or (get_prop params ''landing_page_url'')
                      (js_or (get_prop params ''url'') (JStr [])))))"

definition tap_target_of :: "jsval \<Rightarrow> nat \<Rightarrow> jsval" where
  "tap_target_of canonicalUrl index =
     JObj [(''canonical_url'', canonicalUrl),
           (''url_type'', JStr ''STATIC''),
           (''button_index'', JNum (int index)),
           (''tap_target_format'', JNum 1)]"

text \<open>Lines 53 to 71, the callback of \<^verbatim>\<open>urlButtons.map\<close>.\<close>

definition tapTarget :: "jsval \<Rightarrow> nat \<Rightarrow> js_error + jsval" where
  "tapTarget button index =
     (case try_parse_urls button of
        Inl e \<Rightarrow> if is_exception e then Inr (tap_target_of (JStr []) index) else Inl e
      | Inr (canonicalUrl, landingPageUrl) \<Rightarrow> Inr (tap_target_of canonicalUrl index))"

text \<open>Lines 73 to 80: the object that \<^verbatim>\<open>JSON.stringify\<close> turns into \<^verbatim>\<open>messageParamsJson\<close>.\<close>

definition messageParams :: "jsval list \<Rightarrow> jsval" where
  "messageParams tapTargetList =
     JObj
      [(''bottom_sheet'',
          JObj [(''in_thread_buttons_limit'', JNum 3), (''divider_indices'', JArr [])]),
       (''tap_target_configuration'',
          if 0 < length tapTargetList then hd tapTargetList else JObj []),
       (''tap_target_list'', JArr tapTargetList)]"

text \<open>Lines 100 to 116: the header, assigned when one of its three sources is truthy.\<close>

definition add_header :: "jsval \<Rightarrow> jsval \<Rightarrow> jsval \<Rightarrow> (string \<times> jsval) list \<Rightarrow> (string \<times> jsval) list" where
  "add_header imageMessage title subtitle msg =
     (if truthy imageMessage \<or> truthy title \<or> truthy subtitle then
        (let h0 = [(''hasMediaAttachment'', JBool (truthy imageMessage))];
             h1 = (if truthy imageMessage then AList.update ''imageMessage'' imageMessage h0 else h0);
             h2 = (if truthy title then AList.update ''title'' title h1 else h1);
             h3 = (if truthy subtitle then AList.update ''subtitle'' subtitle h2 else h2)
         in AList.update ''header'' (JObj h3) msg)
      else msg)"

text \<open>Lines 119 to 123: the footer.\<close>

definition add_footer :: "jsval \<Rightarrow> (string \<times> jsval) list \<Rightarrow> (string \<times> jsval) list" where
  "add_footer footerText msg =
     (if truthy footerText then AList.update ''footer'' (JObj [(''text'', footerText)]) msg
      else msg)"

text \<open>Lines 83 to 97: the message before its header and footer.\<close>

definition base_message :: "jsval \<Rightarrow> jsval list \<Rightarrow> jsval \<Rightarrow> jsval \<Rightarrow> (string \<times> jsval) list" where
  "base_message bodyText processedButtons messageParamsJson contextInfo =
     [(''body'', JObj [(''text'', bodyText)]),
      (''nativeFlowMessage'',
         JObj [(''buttons'', JArr processedButtons), (''messageParamsJson'', messageParamsJson)]),
      (''contextInfo'',
         JObj (object_spread
                [(''dataSharingContext'', JObj [(''showMmDisclosure'', JBool False)])]
                contextInfo))]"

text \<open>
  The function, lines 20 to 128. Destructuring \<^verbatim>\<open>options\<close> throws when it is \<^verbatim>\<open>undefined\<close>
  or \<^verbatim>\<open>null\<close>; \<^verbatim>\<open>buttons.map\<close> throws when \<^verbatim>\<open>buttons\<close> is no array (the model has no
  other value with a callable \<^verbatim>\<open>map\<close>).
\<close>

definition createIOSWebviewMessage :: "jsval \<Rightarrow> js_error + jsval" where
  "createIOSWebviewMessage options =
     (if nullish options then Inl TypeError
      else
        (let bodyText = get_prop options ''bodyText'';
             footerText = get_prop options ''footerText'';
             title = get_prop options ''title'';
             subtitle = get_prop options ''subtitle'';
             imageMessage = get_prop options ''imageMessage'';
             buttons = with_default (get_prop options ''buttons'') (JArr []);
             contextInfo = with_default (get_prop options ''contextInfo'') (JObj [])
         in case buttons of
              JArr bs \<Rightarrow>
                (case Array_map process_button bs of
                   Inl e \<Rightarrow> Inl e
                 | Inr processedButtons \<Rightarrow>
                     (case Array_filter is_url_button processedButtons of
                        Inl e \<Rightarrow> Inl e
                      | Inr urlButtons \<Rightarrow>
                          (case Array_map tapTarget urlButtons of
                             Inl e \<Rightarrow> Inl e
                           | Inr tapTargetList \<Rightarrow>
                               Inr (JObj [(''interactiveMessage'',
                                 JObj (add_footer footerText
                                   (add_header imageMessage title subtitle
                                     (base_message bodyText processedButtons
                                        (JSON_stringify (messageParams tapTargetList))
                                        contextInfo))))]))))
            | _ \<Rightarrow> Inl TypeError))"

section \<open>Notions used to state the properties\<close>

text \<open>
  What \<^verbatim>\<open>JSON.parse(JSON.stringify(v))\<close> is, read off the two algorithms: an \<^verbatim>\<open>undefined\<close>
  element of an array comes back as \<^verbatim>\<open>null\<close>, a property whose value is \<^verbatim>\<open>undefined\<close>
  does not come back, every other value comes back as it was.
\<close>

primrec json_image :: "jsval \<Rightarrow> jsval" where
  "json_image JUndefined = JUndefined"
| "json_image JNull = JNull"
| "json_image (JBool b) = JBool b"
| "json_image (JNum n) = JNum n"
| "json_image (JStr s) = JStr s"
| "json_image (JArr xs) = JArr (map (\<lambda>v. if v = JUndefined then JNull else v) (map json_image xs))"
| "json_image (JObj kvs) =
     object_of_members (filter (\<lambda>p. snd p \<noteq> JUndefined) (map (map_prod id json_image) kvs))"

text \<open>What may follow a value inside a JSON text that has no white space.\<close>

definition delimited :: "string \<Rightarrow> bool" where
  "delimited rest = (rest = [] \<or> hd rest \<in> set '',]}'')"

text \<open>The descriptor that lines 43 to 46 return for a button.\<close>

definition normalized :: "jsval \<Rightarrow> jsval" where
  "normalized button =
     JObj [(''name'', JStr ''cta_url''),
           (''buttonParamsJson'', JSON_stringify (buttonParams button))]"

text \<open>The \<^verbatim>\<open>buttons\<close> of the options after destructuring, line 27.\<close>

definition buttons_of :: "jsval \<Rightarrow> jsval" where
  "buttons_of options = with_default (get_prop options ''buttons'') (JArr [])"

text \<open>
  The inputs on which no property read and no \<^verbatim>\<open>map\<close> call of the function throws: the
  options are an object (or any value but \<^verbatim>\<open>undefined\<close> and \<^verbatim>\<open>null\<close>), and the buttons are
  absent or an array with no \<^verbatim>\<open>undefined\<close> and no \<^verbatim>\<open>null\<close> in it.
\<close>

definition accepted :: "jsval \<Rightarrow> bool" where
  "accepted options =
     (\<not> nullish options \<and>
      (case buttons_of options of
         JArr bs \<Rightarrow> list_all (\<lambda>b. \<not> nullish b) bs
       | _ \<Rightarrow> False))"

text \<open>What line 33 to 48 make of a button that is neither \<^verbatim>\<open>undefined\<close> nor \<^verbatim>\<open>null\<close>.\<close>

definition normalize_button :: "jsval \<Rightarrow> jsval" where
  "normalize_button button = (if is_webview_button button then normalized button else button)"

text \<open>Line 59, on the params that \<^verbatim>\<open>JSON.parse\<close> returned.\<close>

definition canonical_url :: "jsval \<Rightarrow> jsval" where
  "canonical_url params =
     js_or (get_prop params ''url'') (js_or (get_prop params ''landing_page_url'') (JStr []))"

text \<open>
  The tap targets of the buttons \<open>bs\<close>, as the theorems below show the function to compute
  them: one for each button that is normalized, numbered from 0.
\<close>

definition tap_targets :: "jsval list \<Rightarrow> jsval list" where
  "tap_targets bs =
     map (\<lambda>(index, button). tap_target_of (canonical_url (json_image (buttonParams button))) index)
       (enumerate 0 (filter is_webview_button bs))"

text \<open>The \<^verbatim>\<open>interactiveMessage\<close> of the options whose buttons are \<open>bs\<close>.\<close>

definition message_of :: "jsval \<Rightarrow> jsval list \<Rightarrow> jsval" where
  "message_of options bs =
     JObj (add_footer (get_prop options ''footerText'')
       (add_header (get_prop options ''imageMessage'') (get_prop options ''title'')
          (get_prop options ''subtitle'')
          (base_message (get_prop options ''bodyText'') (map normalize_button bs)
             (JSON_stringify (messageParams (tap_targets bs)))
             (with_default (get_prop options ''contextInfo'') (JObj [])))))"

text \<open>\<^verbatim>\<open>v.k1.k2\<close> and so on, on objects.\<close>

definition get_path :: "jsval \<Rightarrow> string list \<Rightarrow> jsval" where
  "get_path v ks = foldl get_prop v ks"

section \<open>Sample inputs\<close>

text \<open>
  A button as the spec's example gives it, with an explicit \<^verbatim>\<open>paymentLinkPreview: false\<close>:
  \<^verbatim>\<open>{type: "webview", text: "Go", url: "https://x.com", paymentLinkPreview: false}\<close>.
\<close>

definition sample_button :: jsval where
  "sample_button =
     JObj [(''type'', JStr ''webview''), (''text'', JStr ''Go''), (''url'', JStr ''https://x.com''),
           (''paymentLinkPreview'', JBool False)]"

text \<open>
  Three buttons: the sample button, one that the normalization leaves alone, and one that
  is named \<^verbatim>\<open>cta_url\<close>.
\<close>

definition sample_buttons :: "jsval list" where
  "sample_buttons =
     [sample_button,
      JObj [(''name'', JStr ''quick_reply''), (''buttonParamsJson'', JStr ''{}'')],
      JObj [(''name'', JStr ''cta_url''), (''url'', JStr ''https://y.org'')]]"

definition sample_options :: jsval where
  "sample_options =
     JObj [(''bodyText'', JStr ''Hi''), (''title'', JStr ''Offer''),
           (''buttons'', JArr sample_buttons)]"

text \<open>
  Buttons named \<^verbatim>\<open>cta_url\<close> that come with a \<^verbatim>\<open>buttonParamsJson\<close> which is no JSON text;
  the first has a \<^verbatim>\<open>url\<close> as well.
\<close>

definition presupplied_button :: jsval where
  "presupplied_button =
     JObj [(''name'', JStr ''cta_url''), (''buttonParamsJson'', JStr ''not json''),
           (''url'', JStr ''https://x.com'')]"

definition malformed_buttons :: "jsval list" where
  "malformed_buttons =
     [presupplied_button,
      JObj [(''name'', JStr ''cta_url''), (''buttonParamsJson'', JStr ''not json'')]]"

text \<open>
  Options with a footer, an empty title, and a \<^verbatim>\<open>contextInfo\<close> that brings its own
  \<^verbatim>\<open>dataSharingContext\<close>.
\<close>

definition footer_options :: jsval where
  "footer_options =
     JObj [(''bodyText'', JStr ''Hi''), (''footerText'', JStr ''Bye''), (''title'', JStr []),
           (''contextInfo'',
              JObj [(''mentionedJid'', JArr []),
                    (''dataSharingContext'', JObj [(''showMmDisclosure'', JBool True)])])]"

section \<open>The JSON text of a value parses back\<close>

lemma nat_lt_16_cases:
  "(d::nat) < 16 \<Longrightarrow> d \<in> {0,1,2,3,4,5,6,7,8,9,10,11,12,13,14,15}"
  by simp arith

lemma hex_char_ok: "d < 16 \<Longrightarrow> is_hex (hex_char d) \<and> hex_val (hex_char d) = d"
  by (drule nat_lt_16_cases) (auto simp: hex_char_def is_hex_def hex_val_def)

lemma digit_char_ok: "d < 10 \<Longrightarrow> is_digit (digit_char d) \<and> digit_val (digit_char d) = d"
proof -
  assume "d < 10"
  then have "d \<in> {0,1,2,3,4,5,6,7,8,9}" by simp arith
  then show ?thesis by (auto simp: digit_char_def is_digit_def digit_val_def)
qed

lemma cons_char_Inr [simp]: "cons_char c (Inr (s, rest)) = Inr (c # s, rest)"
  by (simp add: cons_char_def)

lemma parse_chars_plain:
  "c \<noteq> CHR 0x22 \<Longrightarrow> c \<noteq> CHR 0x5C \<Longrightarrow> \<not> of_char c < (32::nat) \<Longrightarrow>
   parse_chars (c # cs) = cons_char c (parse_chars cs)"
  by simp

lemma parse_chars_escape:
  "unescape e = Some d \<Longrightarrow> e \<noteq> CHR ''u'' \<Longrightarrow>
   parse_chars (CHR 0x5C # e # cs) = cons_char d (parse_chars cs)"
  by simp

lemma parse_chars_u00:
  "a < 16 \<Longrightarrow> b < 16 \<Longrightarrow>
   parse_chars (CHR 0x5C # CHR ''u'' # CHR ''0'' # CHR ''0'' # hex_char a # hex_char b # cs)
     = cons_char (char_of (16 * a + b)) (parse_chars cs)"
  using hex_char_ok[of a] hex_char_ok[of b]
  by (simp add: is_hex_def hex_val_def)

lemma parse_chars_quote_char:
  "parse_chars (quote_char c @ cs) = cons_char c (parse_chars cs)"
proof -
  consider (special) "c \<in> set [CHR 0x22, CHR 0x5C, CHR 0x08, CHR 0x09, CHR 0x0A, CHR 0x0C, CHR 0x0D]"
    | (ctl) "c \<notin> set [CHR 0x22, CHR 0x5C, CHR 0x08, CHR 0x09, CHR 0x0A, CHR 0x0C, CHR 0x0D]" "of_char c < (32::nat)"
    | (plain) "c \<notin> set [CHR 0x22, CHR 0x5C, CHR 0x08, CHR 0x09, CHR 0x0A, CHR 0x0C, CHR 0x0D]" "\<not> of_char c < (32::nat)"
    by blast
  then show ?thesis
  proof cases
    case special
    then show ?thesis by (auto simp: quote_char_def unescape_def)
  next
    case ctl
    let ?n = "of_char c :: nat"
    have a: "?n div 16 < 16" using ctl(2) by simp
    have b: "?n mod 16 < 16" by simp
    have q: "quote_char c = [CHR 0x5C, CHR ''u'', CHR ''0'', CHR ''0'', hex_char (?n div 16), hex_char (?n mod 16)]"
      using ctl by (simp add: quote_char_def)
    have "char_of (16 * (?n div 16) + ?n mod 16) = c" by simp
    then show ?thesis using parse_chars_u00[OF a b, of cs] by (simp only: q append_Cons append_Nil)
  next
    case plain
    then show ?thesis by (simp add: quote_char_def)
  qed
qed

lemma parse_chars_close: "parse_chars (CHR 0x22 # rest) = Inr ([], rest)"
  by simp

lemma parse_chars_quoted:
  "parse_chars (concat (map quote_char s) @ CHR 0x22 # rest) = Inr (s, rest)"
  by (induction s) (simp_all add: parse_chars_quote_char parse_chars_close del: parse_chars.simps(2))

lemma digits_of_nonempty: "digits_of n \<noteq> []"
  by (subst digits_of.simps) simp

lemma digits_of_digits: "c \<in> set (digits_of n) \<Longrightarrow> is_digit c"
proof (induction n arbitrary: c rule: digits_of.induct)
  case (1 n)
  show ?case
  proof (cases "n < 10")
    case True
    then show ?thesis using "1.prems" digit_char_ok[of n]
      by (subst (asm) digits_of.simps) simp
  next
    case False
    then show ?thesis using "1.prems" "1.IH" digit_char_ok[of "n mod 10"]
      by (subst (asm) digits_of.simps) auto
  qed
qed

lemma digits_value_snoc: "digits_value (ds @ [c]) = 10 * digits_value ds + digit_val c"
  by (simp add: digits_value_def)

lemma digits_value_digits_of: "digits_value (digits_of n) = n"
proof (induction n rule: digits_of.induct)
  case (1 n)
  show ?case
  proof (cases "n < 10")
    case True
    then show ?thesis using digit_char_ok[of n]
      by (subst digits_of.simps) (simp add: digits_value_def)
  next
    case False
    then show ?thesis using "1.IH" digit_char_ok[of "n mod 10"]
      by (subst digits_of.simps) (simp add: digits_value_snoc)
  qed
qed

lemma digit_char_zero: "d < 10 \<Longrightarrow> digit_char d = CHR ''0'' \<Longrightarrow> d = 0"
proof -
  assume "d < 10" and z: "digit_char d = CHR ''0''"
  then have "d \<in> {0,1,2,3,4,5,6,7,8,9}" by simp arith
  then show ?thesis using z by (auto simp: digit_char_def)
qed

lemma digits_of_leading: "hd (digits_of n) = CHR ''0'' \<Longrightarrow> n = 0"
proof (induction n rule: digits_of.induct)
  case (1 n)
  show ?case
  proof (cases "n < 10")
    case True
    then show ?thesis using "1.prems" digit_char_zero[of n]
      by (subst (asm) digits_of.simps) simp
  next
    case False
    then have "hd (digits_of (n div 10)) = CHR ''0''"
      using "1.prems" digits_of_nonempty[of "n div 10"]
      by (subst (asm) digits_of.simps) simp
    then have "n div 10 = 0" using "1.IH" False by simp
    then show ?thesis using False by simp
  qed
qed

lemma digits_of_zero_length: "length (digits_of 0) = 1"
  by (subst digits_of.simps) simp

lemma delimited_not_digit: "delimited rest \<Longrightarrow> rest = [] \<or> \<not> is_digit (hd rest) \<and> hd rest \<notin> set ''.eE''"
  by (auto simp: delimited_def is_digit_def)

lemma takeWhile_digits:
  "delimited rest \<Longrightarrow> takeWhile is_digit (digits_of n @ rest) = digits_of n"
  using delimited_not_digit[of rest] digits_of_digits[of _ n]
  by (cases rest) (auto simp: takeWhile_append)

lemma dropWhile_digits:
  "delimited rest \<Longrightarrow> dropWhile is_digit (digits_of n @ rest) = rest"
  using delimited_not_digit[of rest] digits_of_digits[of _ n]
  by (cases rest) (auto simp: dropWhile_append)

lemma hd_digits_not_minus: "hd (digits_of n) \<noteq> CHR ''-''"
  using digits_of_digits[of "hd (digits_of n)" n] digits_of_nonempty[of n]
  by (auto simp: is_digit_def)

lemma parse_number_digits:
  assumes "delimited rest"
  shows "parse_number (digits_of n @ rest) = Inr (JNum (int n), rest)"
proof -
  have nm: "\<not> (digits_of n @ rest \<noteq> [] \<and> hd (digits_of n @ rest) = CHR ''-'')"
    using hd_digits_not_minus[of n] digits_of_nonempty[of n] by simp
  have lead: "\<not> (hd (digits_of n) = CHR ''0'' \<and> 1 < length (digits_of n))"
    using digits_of_leading[of n] digits_of_zero_length by auto
  show ?thesis
    unfolding parse_number_def Let_def
    using nm lead delimited_not_digit[OF assms] digits_of_nonempty[of n]
    by (auto simp add: takeWhile_digits[OF assms] dropWhile_digits[OF assms] digits_value_digits_of)
qed

lemma parse_number_minus:
  assumes "delimited rest"
  shows "parse_number (CHR ''-'' # digits_of n @ rest) = Inr (JNum (- int n), rest)"
proof -
  have lead: "\<not> (hd (digits_of n) = CHR ''0'' \<and> 1 < length (digits_of n))"
    using digits_of_leading[of n] digits_of_zero_length by auto
  show ?thesis
    unfolding parse_number_def Let_def
    using lead delimited_not_digit[OF assms] digits_of_nonempty[of n]
    by (auto simp add: takeWhile_digits[OF assms] dropWhile_digits[OF assms] digits_value_digits_of)
qed

lemma parse_number_toString:
  "delimited rest \<Longrightarrow> parse_number (Number_toString n @ rest) = Inr (JNum n, rest)"
  by (simp add: Number_toString_def parse_number_digits parse_number_minus)

lemma pv_null: "parse_value (Suc n) (CHR ''n'' # cs) = parse_literal ''null'' JNull (CHR ''n'' # cs)"
  by simp
lemma pv_true: "parse_value (Suc n) (CHR ''t'' # cs) = parse_literal ''true'' (JBool True) (CHR ''t'' # cs)"
  by simp
lemma pv_false: "parse_value (Suc n) (CHR ''f'' # cs) = parse_literal ''false'' (JBool False) (CHR ''f'' # cs)"
  by simp
lemma pv_string:
  "parse_value (Suc n) (CHR 0x22 # cs) =
     (case parse_chars cs of Inl e \<Rightarrow> Inl e | Inr (str, rest) \<Rightarrow> Inr (JStr str, rest))"
  by simp
lemma pv_array_empty:
  "skip_ws cs = CHR '']'' # ds \<Longrightarrow> parse_value (Suc n) (CHR ''['' # cs) = Inr (JArr [], ds)"
  by simp
lemma pv_array:
  "skip_ws cs = d # ds \<Longrightarrow> d \<noteq> CHR '']'' \<Longrightarrow>
   parse_value (Suc n) (CHR ''['' # cs) =
     (case parse_elements n (d # ds) of Inl e \<Rightarrow> Inl e | Inr (vs, rest) \<Rightarrow> Inr (JArr vs, rest))"
  by simp
lemma pv_object_empty:
  "skip_ws cs = CHR ''}'' # ds \<Longrightarrow> parse_value (Suc n) (CHR ''{'' # cs) = Inr (JObj [], ds)"
  by simp
lemma pv_object:
  "skip_ws cs = d # ds \<Longrightarrow> d \<noteq> CHR ''}'' \<Longrightarrow>
   parse_value (Suc n) (CHR ''{'' # cs) =
     (case parse_members n (d # ds) of
        Inl e \<Rightarrow> Inl e | Inr (kvs, rest) \<Rightarrow> Inr (object_of_members kvs, rest))"
  by simp
lemma pv_number:
  "c = CHR ''-'' \<or> is_digit c \<Longrightarrow> parse_value (Suc n) (c # cs) = parse_number (c # cs)"
  by (auto simp: is_digit_def)

lemma pe_step:
  "parse_value n s = Inr (v, rest) \<Longrightarrow> skip_ws rest = c # cs \<Longrightarrow>
   parse_elements (Suc n) s =
     (if c = CHR '','' then
        (case parse_elements n (skip_ws cs) of
           Inl e \<Rightarrow> Inl e | Inr (vs, rest') \<Rightarrow> Inr (v # vs, rest'))
      else if c = CHR '']'' then Inr ([v], cs) else Inl SyntaxError)"
  by simp

lemma pm_step:
  "parse_chars s1 = Inr (k, rest) \<Longrightarrow> skip_ws rest = CHR '':'' # cs \<Longrightarrow>
   parse_value n (skip_ws cs) = Inr (v, rest') \<Longrightarrow> skip_ws rest' = c' # cs' \<Longrightarrow>
   parse_members (Suc n) (CHR 0x22 # s1) =
     (if c' = CHR '','' then
        (case parse_members n (skip_ws cs') of
           Inl e \<Rightarrow> Inl e | Inr (kvs, rest'') \<Rightarrow> Inr ((k, v) # kvs, rest''))
      else if c' = CHR ''}'' then Inr ([(k, v)], cs') else Inl SyntaxError)"
  by simp

declare parse_value.simps [simp del] parse_elements.simps [simp del] parse_members.simps [simp del]

lemma skip_ws_start: "s \<noteq> [] \<Longrightarrow> \<not> is_ws (hd s) \<Longrightarrow> skip_ws (s @ r) = s @ r"
  by (cases s) (simp_all add: skip_ws_def)

lemma skip_ws_Cons: "\<not> is_ws c \<Longrightarrow> skip_ws (c # r) = c # r"
  by (simp add: skip_ws_def)

lemma join_comma_Cons: "xs \<noteq> [] \<Longrightarrow> join_comma (x # xs) = x @ CHR '','' # join_comma xs"
  by (cases xs) simp_all

lemma hd_join_comma: "x \<noteq> [] \<Longrightarrow> join_comma (x # xs) \<noteq> [] \<and> hd (join_comma (x # xs)) = hd x"
  by (cases xs) simp_all

lemma delimited_simps [simp]:
  "delimited []" "delimited (CHR '','' # r)" "delimited (CHR '']'' # r)" "delimited (CHR ''}'' # r)"
  by (simp_all add: delimited_def)

lemma not_ws_simps [simp]:
  "\<not> is_ws (CHR '','')" "\<not> is_ws (CHR '']'')" "\<not> is_ws (CHR ''}'')" "\<not> is_ws (CHR '':'')"
  "\<not> is_ws (CHR 0x22)"
  by (simp_all add: is_ws_def)

lemma parse_elements_join:
  assumes "items \<noteq> []"
    and "\<And>t v fuel rest. (t, v) \<in> set items \<Longrightarrow> length t < fuel \<Longrightarrow> delimited rest \<Longrightarrow>
           parse_value fuel (t @ rest) = Inr (v, rest)"
    and "\<And>t v. (t, v) \<in> set items \<Longrightarrow> t \<noteq> [] \<and> \<not> is_ws (hd t)"
    and "length (join_comma (map fst items)) + 1 < fuel"
  shows "parse_elements fuel (join_comma (map fst items) @ CHR '']'' # rest) = Inr (map snd items, rest)"
  using assms
proof (induction items arbitrary: fuel rule: list_nonempty_induct)
  case (single x)
  obtain t v where x: "x = (t, v)" by (cases x)
  obtain m where fuel: "fuel = Suc m" using single.prems(3) by (cases fuel) simp_all
  have "length t < m" using single.prems(3) by (simp add: x fuel)
  then have pv: "parse_value m (t @ CHR '']'' # rest) = Inr (v, CHR '']'' # rest)"
    using single.prems(1)[of t v m "CHR '']'' # rest"] by (simp add: x)
  show ?case
    using pe_step[OF pv, of "CHR '']''" rest] by (simp add: x fuel skip_ws_Cons)
next
  case (cons x xs)
  obtain t v where x: "x = (t, v)" by (cases x)
  obtain m where fuel: "fuel = Suc m" using cons.prems(3) by (cases fuel) simp_all
  let ?j = "join_comma (map fst xs)"
  have j: "join_comma (map fst (x # xs)) = t @ CHR '','' # ?j"
    using cons.hyps by (simp add: x join_comma_Cons)
  have lt: "length t < m" and lj: "length ?j + 1 < m"
    using cons.prems(3) unfolding j fuel by simp_all
  have pv: "parse_value m (t @ CHR '','' # ?j @ CHR '']'' # rest) = Inr (v, CHR '','' # ?j @ CHR '']'' # rest)"
    using cons.prems(1)[of t v m "CHR '','' # ?j @ CHR '']'' # rest"] lt by (simp add: x)
  obtain y ys where xs: "xs = y # ys" using cons.hyps by (cases xs) simp_all
  have "fst y \<noteq> [] \<and> \<not> is_ws (hd (fst y))"
    using cons.prems(2)[of "fst y" "snd y"] by (simp add: xs)
  then have "?j \<noteq> [] \<and> \<not> is_ws (hd ?j)"
    using hd_join_comma[of "fst y" "map fst ys"] by (simp add: xs)
  then have sk: "skip_ws (?j @ CHR '']'' # rest) = ?j @ CHR '']'' # rest"
    by (simp add: skip_ws_start)
  have ih: "parse_elements m (?j @ CHR '']'' # rest) = Inr (map snd xs, rest)"
  proof (rule cons.IH[of m])
    fix t v fuel rest
    assume "(t, v) \<in> set xs" "length t < fuel" "delimited rest"
    then show "parse_value fuel (t @ rest) = Inr (v, rest)"
      using cons.prems(1)[of t v fuel rest] by simp
  next
    fix t v
    assume "(t, v) \<in> set xs"
    then show "t \<noteq> [] \<and> \<not> is_ws (hd t)" using cons.prems(2)[of t v] by simp
  next
    show "length ?j + 1 < m" by (rule lj)
  qed
  have "parse_elements (Suc m) (t @ CHR '','' # ?j @ CHR '']'' # rest) = Inr (v # map snd xs, rest)"
    using pe_step[OF pv, of "CHR '',''" "?j @ CHR '']'' # rest"] by (simp add: skip_ws_Cons sk ih)
  then show ?case unfolding j fuel by (simp add: x)
qed

lemma parse_members_join:
  assumes "items \<noteq> []"
    and "\<And>k t v fuel rest. (k, t, v) \<in> set items \<Longrightarrow> length t < fuel \<Longrightarrow> delimited rest \<Longrightarrow>
           parse_value fuel (t @ rest) = Inr (v, rest)"
    and "\<And>k t v. (k, t, v) \<in> set items \<Longrightarrow> t \<noteq> [] \<and> \<not> is_ws (hd t)"
    and "length (join_comma (map (\<lambda>(k, t, v). QuoteJSONString k @ CHR '':'' # t) items)) + 1 < fuel"
  shows "parse_members fuel
           (join_comma (map (\<lambda>(k, t, v). QuoteJSONString k @ CHR '':'' # t) items) @ CHR ''}'' # rest)
         = Inr (map (\<lambda>(k, t, v). (k, v)) items, rest)"
  using assms
proof (induction items arbitrary: fuel rule: list_nonempty_induct)
  case (single x)
  obtain k t v where x: "x = (k, t, v)" by (cases x)
  obtain m where fuel: "fuel = Suc m" using single.prems(3) by (cases fuel) simp_all
  have "length t < m" using single.prems(3) by (simp add: x fuel QuoteJSONString_def)
  then have pv: "parse_value m (skip_ws (t @ CHR ''}'' # rest)) = Inr (v, CHR ''}'' # rest)"
    using single.prems(1)[of k t v m "CHR ''}'' # rest"] single.prems(2)[of k t v]
    by (simp add: x skip_ws_start)
  have pc: "parse_chars (concat (map quote_char k) @ CHR 0x22 # CHR '':'' # t @ CHR ''}'' # rest)
              = Inr (k, CHR '':'' # t @ CHR ''}'' # rest)"
    by (rule parse_chars_quoted)
  show ?case
    using pm_step[OF pc _ pv, of "CHR ''}''" rest]
    by (simp add: x fuel skip_ws_Cons QuoteJSONString_def)
next
  case (cons x xs)
  obtain k t v where x: "x = (k, t, v)" by (cases x)
  obtain m where fuel: "fuel = Suc m" using cons.prems(3) by (cases fuel) simp_all
  let ?f = "\<lambda>(k, t, v). QuoteJSONString k @ CHR '':'' # t"
  let ?j = "join_comma (map ?f xs)"
  have j: "join_comma (map ?f (x # xs)) = (QuoteJSONString k @ CHR '':'' # t) @ CHR '','' # ?j"
    using cons.hyps by (simp add: x join_comma_Cons)
  have lt: "length t < m" and lj: "length ?j + 1 < m"
    using cons.prems(3) unfolding j fuel by (simp_all add: QuoteJSONString_def)
  have pv: "parse_value m (skip_ws (t @ CHR '','' # ?j @ CHR ''}'' # rest)) = Inr (v, CHR '','' # ?j @ CHR ''}'' # rest)"
    using cons.prems(1)[of k t v m "CHR '','' # ?j @ CHR ''}'' # rest"] lt cons.prems(2)[of k t v]
    by (simp add: x skip_ws_start)
  have pc: "parse_chars (concat (map quote_char k) @ CHR 0x22 # CHR '':'' # t @ CHR '','' # ?j @ CHR ''}'' # rest)
              = Inr (k, CHR '':'' # t @ CHR '','' # ?j @ CHR ''}'' # rest)"
    by (rule parse_chars_quoted)
  obtain y ys where xs: "xs = y # ys" using cons.hyps by (cases xs) simp_all
  have "?f y \<noteq> [] \<and> \<not> is_ws (hd (?f y))"
    by (cases y) (simp add: QuoteJSONString_def)
  then have "?j \<noteq> [] \<and> \<not> is_ws (hd ?j)"
    using hd_join_comma[of "?f y" "map ?f ys"] by (simp add: xs)
  then have sk: "skip_ws (?j @ CHR ''}'' # rest) = ?j @ CHR ''}'' # rest"
    by (simp add: skip_ws_start)
  have ih: "parse_members m (?j @ CHR ''}'' # rest) = Inr (map (\<lambda>(k, t, v). (k, v)) xs, rest)"
  proof (rule cons.IH[of m])
    fix k t v fuel rest
    assume "(k, t, v) \<in> set xs" "length t < fuel" "delimited rest"
    then show "parse_value fuel (t @ rest) = Inr (v, rest)"
      using cons.prems(1)[of k t v fuel rest] by simp
  next
    fix k t v
    assume "(k, t, v) \<in> set xs"
    then show "t \<noteq> [] \<and> \<not> is_ws (hd t)" using cons.prems(2)[of k t v] by simp
  next
    show "length ?j + 1 < m" by (rule lj)
  qed
  have "parse_members (Suc m) (CHR 0x22 # concat (map quote_char k) @ CHR 0x22 # CHR '':'' # t @ CHR '','' # ?j @ CHR ''}'' # rest)
          = Inr ((k, v) # map (\<lambda>(k, t, v). (k, v)) xs, rest)"
    using pm_step[OF pc _ pv, of "CHR '',''" "?j @ CHR ''}'' # rest"]
    by (simp add: skip_ws_Cons sk ih)
  then show ?case unfolding j fuel by (simp add: x QuoteJSONString_def)
qed

lemma Number_toString_start:
  "\<exists>c cs. Number_toString n = c # cs \<and> (c = CHR ''-'' \<or> is_digit c)"
proof (cases "n < 0")
  case True
  then show ?thesis by (simp add: Number_toString_def)
next
  case False
  obtain c cs where d: "digits_of (nat n) = c # cs"
    using digits_of_nonempty[of "nat n"] by (cases "digits_of (nat n)") simp_all
  then have "is_digit c" using digits_of_digits[of c "nat n"] by simp
  then show ?thesis using False d by (simp add: Number_toString_def)
qed

lemma serialized_start:
  "SerializeJSONProperty v = Some t \<Longrightarrow> t \<noteq> [] \<and> \<not> is_ws (hd t) \<and> hd t \<noteq> CHR '']'' \<and> hd t \<noteq> CHR ''}''"
proof (cases v)
  case (JNum n)
  assume "SerializeJSONProperty v = Some t"
  then have t: "t = Number_toString n" using JNum by simp
  obtain c cs where "Number_toString n = c # cs" "c = CHR ''-'' \<or> is_digit c"
    using Number_toString_start[of n] by blast
  then show ?thesis by (auto simp: t is_ws_def is_digit_def)
qed (auto simp: is_ws_def QuoteJSONString_def split: if_splits)

lemma element_text_start:
  "element_text (SerializeJSONProperty v) \<noteq> [] \<and> \<not> is_ws (hd (element_text (SerializeJSONProperty v)))
   \<and> hd (element_text (SerializeJSONProperty v)) \<noteq> CHR '']''"
proof (cases "SerializeJSONProperty v")
  case None
  then show ?thesis by (simp add: element_text_def is_ws_def)
next
  case (Some t)
  then show ?thesis using serialized_start[OF Some] by (simp add: element_text_def)
qed

lemma serialized_None: "SerializeJSONProperty v = None \<longleftrightarrow> v = JUndefined"
  by (cases v) simp_all

lemma json_image_undefined: "json_image v = JUndefined \<longleftrightarrow> v = JUndefined"
  by (cases v) (simp_all add: object_of_members_def)

lemma parse_literal_null: "parse_literal ''null'' JNull (''null'' @ rest) = Inr (JNull, rest)"
  by (simp add: parse_literal_def)

lemma parse_value_null:
  "4 < fuel \<Longrightarrow> parse_value fuel (''null'' @ rest) = Inr (JNull, rest)"
  by (cases fuel) (simp_all add: pv_null parse_literal_def)

lemma parse_value_true:
  "4 < fuel \<Longrightarrow> parse_value fuel (''true'' @ rest) = Inr (JBool True, rest)"
  by (cases fuel) (simp_all add: pv_true parse_literal_def)

lemma parse_value_false:
  "5 < fuel \<Longrightarrow> parse_value fuel (''false'' @ rest) = Inr (JBool False, rest)"
  by (cases fuel) (simp_all add: pv_false parse_literal_def)

lemma map_filter_members:
  "List.map_filter member_text (map (map_prod id SerializeJSONProperty) kvs)
   = map (\<lambda>(k, t, v). QuoteJSONString k @ CHR '':'' # t)
       (map (\<lambda>(k, v). (k, the (SerializeJSONProperty v), json_image v))
          (filter (\<lambda>p. snd p \<noteq> JUndefined) kvs))"
proof (induction kvs)
  case Nil
  show ?case by (simp add: List.map_filter_simps)
next
  case (Cons p kvs)
  obtain k v where p: "p = (k, v)" by (cases p)
  show ?case
  proof (cases "v = JUndefined")
    case True
    then show ?thesis using Cons by (simp add: p List.map_filter_simps member_text_def)
  next
    case False
    then obtain t where "SerializeJSONProperty v = Some t"
      using serialized_None[of v] by (cases "SerializeJSONProperty v") simp_all
    then show ?thesis using Cons False by (simp add: p List.map_filter_simps member_text_def)
  qed
qed

lemma image_members:
  "map (\<lambda>(k, t, v). (k, v))
       (map (\<lambda>(k, v). (k, the (SerializeJSONProperty v), json_image v))
          (filter (\<lambda>p. snd p \<noteq> JUndefined) kvs))
   = filter (\<lambda>p. snd p \<noteq> JUndefined) (map (map_prod id json_image) kvs)"
  by (induction kvs) (auto simp: json_image_undefined)

lemma parse_value_serialized:
  "SerializeJSONProperty v = Some t \<Longrightarrow> length t < fuel \<Longrightarrow> delimited rest \<Longrightarrow>
   parse_value fuel (t @ rest) = Inr (json_image v, rest)"
proof (induction v arbitrary: t fuel rest)
  case JUndefined
  then show ?case by simp
next
  case JNull
  then have "t = ''null''" by auto
  then show ?case using JNull.prems(2) parse_value_null[of fuel rest] by simp
next
  case (JBool b)
  then have "t = (if b then ''true'' else ''false'')" by auto
  then show ?case
    using JBool.prems(2) parse_value_true[of fuel rest] parse_value_false[of fuel rest]
    by (cases b) simp_all
next
  case (JNum n)
  obtain m where fuel: "fuel = Suc m" using JNum.prems(2) by (cases fuel) simp_all
  obtain c cs where s: "Number_toString n = c # cs" "c = CHR ''-'' \<or> is_digit c"
    using Number_toString_start[of n] by blast
  have t: "t = c # cs" using JNum.prems(1) s(1) by auto
  have "parse_value (Suc m) (c # cs @ rest) = parse_number (c # cs @ rest)"
    using s(2) by (rule pv_number)
  also have "\<dots> = Inr (JNum n, rest)"
    using parse_number_toString[OF JNum.prems(3), of n] s(1) by simp
  finally show ?case by (simp add: fuel t)
next
  case (JStr s)
  obtain m where fuel: "fuel = Suc m" using JStr.prems(2) by (cases fuel) simp_all
  show ?case using JStr.prems(1)
    by (auto simp: fuel QuoteJSONString_def pv_string parse_chars_quoted)
next
  case (JArr xs)
  obtain m where fuel: "fuel = Suc m" using JArr.prems(2) by (cases fuel) simp_all
  let ?items = "map (\<lambda>x. (element_text (SerializeJSONProperty x),
                          if json_image x = JUndefined then JNull else json_image x)) xs"
  let ?j = "join_comma (map fst ?items)"
  have t: "t = CHR ''['' # ?j @ '']''"
    using JArr.prems(1) by (simp add: comp_def)
  show ?case
  proof (cases "xs = []")
    case True
    then show ?thesis using pv_array_empty[of "CHR '']'' # rest" rest m]
      by (simp add: t fuel skip_ws_Cons)
  next
    case False
    then obtain y ys where xs: "xs = y # ys" by (cases xs) simp_all
    have st: "?j \<noteq> [] \<and> \<not> is_ws (hd ?j) \<and> hd ?j \<noteq> CHR '']''"
      using element_text_start[of y]
        hd_join_comma[of "element_text (SerializeJSONProperty y)" "map fst (map (\<lambda>x. (element_text (SerializeJSONProperty x),
                          if json_image x = JUndefined then JNull else json_image x)) ys)"]
      by (simp add: xs)
    then obtain d ds where j: "?j = d # ds" "d \<noteq> CHR '']''" "\<not> is_ws d"
      by (cases ?j) auto
    have sk: "skip_ws (?j @ CHR '']'' # rest) = d # ds @ CHR '']'' # rest"
      using j by (simp add: skip_ws_Cons)
    have pe: "parse_elements m (?j @ CHR '']'' # rest) = Inr (map snd ?items, rest)"
    proof (rule parse_elements_join)
      show "?items \<noteq> []" using False by simp
    next
      fix u w fuel' rest'
      assume in_items: "(u, w) \<in> set ?items" and len: "length u < fuel'" and dl: "delimited rest'"
      then obtain x where x: "x \<in> set xs" "u = element_text (SerializeJSONProperty x)"
        "w = (if json_image x = JUndefined then JNull else json_image x)" by auto
      show "parse_value fuel' (u @ rest') = Inr (w, rest')"
      proof (cases "SerializeJSONProperty x")
        case None
        then have "x = JUndefined" by (simp add: serialized_None)
        then show ?thesis using x len parse_value_null[of fuel' rest'] by (simp add: element_text_def)
      next
        case (Some t')
        then have "x \<noteq> JUndefined" by auto
        then have "json_image x \<noteq> JUndefined" by (simp add: json_image_undefined)
        then show ?thesis using JArr.IH[OF x(1) Some _ dl, of fuel'] x len Some
          by (simp add: element_text_def)
      qed
    next
      fix u w
      assume "(u, w) \<in> set ?items"
      then obtain x where "u = element_text (SerializeJSONProperty x)" by auto
      then show "u \<noteq> [] \<and> \<not> is_ws (hd u)" using element_text_start[of x] by simp
    next
      show "length ?j + 1 < m" using JArr.prems(2) by (simp add: t fuel)
    qed
    have pe': "parse_elements m (d # ds @ CHR '']'' # rest) = Inr (map snd ?items, rest)"
      using pe by (simp only: j(1) append_Cons)
    have "parse_value (Suc m) (CHR ''['' # ?j @ CHR '']'' # rest) =
            (case parse_elements m (d # ds @ CHR '']'' # rest) of
               Inl e \<Rightarrow> Inl e | Inr (vs, rest) \<Rightarrow> Inr (JArr vs, rest))"
      by (rule pv_array[OF sk j(2)])
    also have "\<dots> = Inr (JArr (map snd ?items), rest)"
      by (simp only: pe' sum.case prod.case)
    finally show ?thesis by (simp add: t fuel comp_def)
  qed
next
  case (JObj kvs)
  obtain m where fuel: "fuel = Suc m" using JObj.prems(2) by (cases fuel) simp_all
  let ?kept = "filter (\<lambda>p. snd p \<noteq> JUndefined) kvs"
  let ?items = "map (\<lambda>(k, v). (k, the (SerializeJSONProperty v), json_image v)) ?kept"
  let ?f = "\<lambda>(k, t, v). QuoteJSONString k @ CHR '':'' # t"
  let ?j = "join_comma (map ?f ?items)"
  have t: "t = CHR ''{'' # ?j @ ''}''"
    using JObj.prems(1) by (simp add: map_filter_members)
  have img: "json_image (JObj kvs) = object_of_members (map (\<lambda>(k, t, v). (k, v)) ?items)"
    using image_members[of kvs] by (simp only: json_image.simps)
  show ?case
  proof (cases "?kept = []")
    case True
    have e: "json_image (JObj kvs) = JObj []"
      unfolding img using True by (simp add: object_of_members_def)
    show ?thesis using pv_object_empty[of "CHR ''}'' # rest" rest m] True
      by (simp only: e) (simp add: t fuel skip_ws_Cons)
  next
    case False
    then obtain y ys where kept: "?items = y # ys" by (cases ?items) simp_all
    have "?f y \<noteq> [] \<and> hd (?f y) = CHR 0x22" by (cases y) (simp add: QuoteJSONString_def)
    then have "?j \<noteq> [] \<and> hd ?j = CHR 0x22"
      using hd_join_comma[of "?f y" "map ?f ys"] by (simp add: kept)
    then obtain ds where j: "?j = CHR 0x22 # ds" by (cases ?j) auto
    have sk: "skip_ws (?j @ CHR ''}'' # rest) = CHR 0x22 # ds @ CHR ''}'' # rest"
      using j by (simp add: skip_ws_Cons)
    have pm: "parse_members m (?j @ CHR ''}'' # rest) = Inr (map (\<lambda>(k, t, v). (k, v)) ?items, rest)"
    proof (rule parse_members_join)
      show "?items \<noteq> []" using False by simp
    next
      fix k u w fuel' rest'
      assume in_items: "(k, u, w) \<in> set ?items" and len: "length u < fuel'" and dl: "delimited rest'"
      then obtain v where v: "(k, v) \<in> set kvs" "v \<noteq> JUndefined"
        "u = the (SerializeJSONProperty v)" "w = json_image v" by auto
      then obtain t' where t': "SerializeJSONProperty v = Some t'"
        using serialized_None[of v] by (cases "SerializeJSONProperty v") simp_all
      have "v \<in> Basic_BNFs.snds (k, v)" by simp
      then show "parse_value fuel' (u @ rest') = Inr (w, rest')"
        using JObj.IH[OF v(1) _ t' _ dl, of fuel'] v len t' by simp
    next
      fix k u w
      assume "(k, u, w) \<in> set ?items"
      then obtain v where v: "v \<noteq> JUndefined" "u = the (SerializeJSONProperty v)" by auto
      then obtain t' where t': "SerializeJSONProperty v = Some t'"
        using serialized_None[of v] by (cases "SerializeJSONProperty v") simp_all
      then show "u \<noteq> [] \<and> \<not> is_ws (hd u)" using serialized_start[OF t'] v by simp
    next
      show "length ?j + 1 < m" using JObj.prems(2) by (simp add: t fuel)
    qed
    have pm': "parse_members m (CHR 0x22 # ds @ CHR ''}'' # rest)
                 = Inr (map (\<lambda>(k, t, v). (k, v)) ?items, rest)"
      using pm by (simp only: j append_Cons)
    have "parse_value (Suc m) (CHR ''{'' # ?j @ CHR ''}'' # rest) =
            (case parse_members m (CHR 0x22 # ds @ CHR ''}'' # rest) of
               Inl e \<Rightarrow> Inl e | Inr (kvs, rest) \<Rightarrow> Inr (object_of_members kvs, rest))"
      by (rule pv_object[OF sk]) simp
    also have "\<dots> = Inr (object_of_members (map (\<lambda>(k, t, v). (k, v)) ?items), rest)"
      by (simp only: pm' sum.case prod.case)
    finally show ?thesis by (simp only: img) (simp add: t fuel)
  qed
qed

lemma JSON_parse_stringify:
  "v \<noteq> JUndefined \<Longrightarrow> JSON_parse (JSON_stringify v) = Inr (json_image v)"
proof -
  assume "v \<noteq> JUndefined"
  then obtain t where t: "SerializeJSONProperty v = Some t"
    using serialized_None[of v] by (cases "SerializeJSONProperty v") simp_all
  have "skip_ws t = t" using serialized_start[OF t] skip_ws_start[of t "[]"] by simp
  moreover have "parse_value (Suc (2 * length t)) (t @ []) = Inr (json_image v, [])"
    using parse_value_serialized[OF t, of "Suc (2 * length t)" "[]"] by simp
  ultimately show ?thesis
    by (simp add: JSON_parse_def JSON_stringify_def t parse_text_def skip_ws_def)
qed

section \<open>The parser has fuel enough\<close>

lemma cons_char_rest: "cons_char c r = Inr (s, rest) \<Longrightarrow> \<exists>s'. r = Inr (s', rest)"
  by (cases r) (auto simp: cons_char_def)

lemma cons_char_not_fuel: "r \<noteq> Inl OutOfFuel \<Longrightarrow> cons_char c r \<noteq> Inl OutOfFuel"
  by (cases r) (auto simp: cons_char_def)

lemma parse_chars_step:
  assumes "parse_chars cs' \<noteq> Inl OutOfFuel"
    and "\<And>k rest. parse_chars cs' = Inr (k, rest) \<Longrightarrow> length rest < length cs'"
    and "length cs' \<le> length cs"
    and "parse_chars (c # cs) = cons_char d (parse_chars cs')"
  shows "parse_chars (c # cs) \<noteq> Inl OutOfFuel
       \<and> (\<forall>k rest. parse_chars (c # cs) = Inr (k, rest) \<longrightarrow> length rest < length (c # cs))"
proof (intro conjI allI impI)
  show "parse_chars (c # cs) \<noteq> Inl OutOfFuel"
    using assms(1,4) cons_char_not_fuel by simp
next
  fix k rest assume "parse_chars (c # cs) = Inr (k, rest)"
  then obtain s' where "parse_chars cs' = Inr (s', rest)"
    using assms(4) cons_char_rest by metis
  then show "length rest < length (c # cs)" using assms(2,3) by fastforce
qed

lemma parse_chars_ok:
  "parse_chars s \<noteq> Inl OutOfFuel
   \<and> (\<forall>k rest. parse_chars s = Inr (k, rest) \<longrightarrow> length rest < length s)"
proof (induction s rule: length_induct)
  case (1 s)
  have ih: "parse_chars t \<noteq> Inl OutOfFuel"
    "\<And>k rest. parse_chars t = Inr (k, rest) \<Longrightarrow> length rest < length t"
    if "length t < length s" for t
    using 1 that by blast+
  show ?case
  proof (cases s)
    case Nil
    then show ?thesis by simp
  next
    case s: (Cons c cs)
    have step: "parse_chars (c # cs) \<noteq> Inl OutOfFuel
       \<and> (\<forall>k rest. parse_chars (c # cs) = Inr (k, rest) \<longrightarrow> length rest < length (c # cs))"
      if "length cs' \<le> length cs" "parse_chars (c # cs) = cons_char d (parse_chars cs')" for cs' d
      using parse_chars_step[OF ih(1) ih(2) that] that(1) s by simp
    show ?thesis
    proof (cases "c = CHR 0x22")
      case True
      then show ?thesis by (simp add: s)
    next
      case q: False
      show ?thesis
      proof (cases "c = CHR 0x5C")
        case False
        show ?thesis
        proof (cases "of_char c < (32::nat)")
          case True
          then show ?thesis using q False by (simp add: s)
        next
          case p: False
          have "parse_chars (c # cs) = cons_char c (parse_chars cs)" using q False p by simp
          then show ?thesis using step[of cs c] by (simp only: s) simp
        qed
      next
        case True
        show ?thesis
        proof (cases cs)
          case Nil
          then show ?thesis using True by (simp add: s)
        next
          case (Cons e cs1)
          show ?thesis
          proof (cases "e = CHR ''u''")
            case False
            show ?thesis
            proof (cases "unescape e")
              case None
              then show ?thesis using True Cons False by (simp add: s)
            next
              case (Some d)
              have "parse_chars (c # cs) = cons_char d (parse_chars cs1)"
                using True Cons False Some by simp
              then show ?thesis using step[of cs1 d] Cons by (simp only: s) simp
            qed
          next
            case u: True
            show ?thesis
            proof (cases cs1)
              case Nil
              then show ?thesis using True Cons u by (simp add: s)
            next
              case c1: (Cons h1 cs2)
              show ?thesis
              proof (cases cs2)
                case Nil
                then show ?thesis using True Cons u c1 by (simp add: s)
              next
                case c2: (Cons h2 cs3)
                show ?thesis
                proof (cases cs3)
                  case Nil
                  then show ?thesis using True Cons u c1 c2 by (simp add: s)
                next
                  case c3: (Cons h3 cs4)
                  show ?thesis
                  proof (cases cs4)
                    case Nil
                    then show ?thesis using True Cons u c1 c2 c3 by (simp add: s)
                  next
                    case c4: (Cons h4 cs5)
                    show ?thesis
                    proof (cases "is_hex h1 \<and> is_hex h2 \<and> is_hex h3 \<and> is_hex h4
                                  \<and> hex_val h1 = 0 \<and> hex_val h2 = 0")
                      case False
                      then show ?thesis using True Cons u c1 c2 c3 c4 by (auto simp: s)
                    next
                      case h: True
                      have "parse_chars (c # cs) =
                              cons_char (char_of (16 * hex_val h3 + hex_val h4)) (parse_chars cs5)"
                        using True Cons u c1 c2 c3 c4 h by simp
                      then show ?thesis
                        using step[of cs5 "char_of (16 * hex_val h3 + hex_val h4)"] Cons c1 c2 c3 c4
                        by (simp only: s) simp
                    qed
                  qed
                qed
              qed
            qed
          qed
        qed
      qed
    qed
  qed
qed

lemma length_skip_ws: "length (skip_ws s) \<le> length s"
  by (simp add: skip_ws_def length_dropWhile_le)

lemma dropWhile_shorter: "takeWhile p t \<noteq> [] \<Longrightarrow> length (dropWhile p t) < length t"
proof -
  assume ne: "takeWhile p t \<noteq> []"
  have "length (takeWhile p t @ dropWhile p t) = length t"
    by (simp only: takeWhile_dropWhile_id)
  then have "length (takeWhile p t) + length (dropWhile p t) = length t"
    by (simp only: length_append)
  moreover have "0 < length (takeWhile p t)" using ne by simp
  ultimately show ?thesis by linarith
qed

lemma parse_number_shorter: "parse_number s = Inr (v, rest) \<Longrightarrow> length rest < length s"
proof -
  assume a: "parse_number s = Inr (v, rest)"
  show ?thesis
  proof (cases "s \<noteq> [] \<and> hd s = CHR ''-''")
    case True
    then have "rest = dropWhile is_digit (tl s)" "takeWhile is_digit (tl s) \<noteq> []"
      using a by (simp_all add: parse_number_def Let_def split: if_splits)
    then have "length rest < length (tl s)" using dropWhile_shorter[of is_digit "tl s"] by simp
    then show ?thesis by simp
  next
    case False
    then have "rest = dropWhile is_digit s" "takeWhile is_digit s \<noteq> []"
      using a by (simp_all add: parse_number_def Let_def split: if_splits)
    then show ?thesis using dropWhile_shorter[of is_digit s] by simp
  qed
qed

lemma parse_number_fuel: "parse_number s \<noteq> Inl OutOfFuel"
  by (simp add: parse_number_def Let_def)

lemma parse_literal_shorter:
  assumes "w \<noteq> []" and "parse_literal w v s = Inr (v', rest)"
  shows "length rest < length s"
proof -
  have t: "take (length w) s = w" and r: "rest = drop (length w) s"
    using assms(2) by (simp_all add: parse_literal_def split: if_splits)
  have "length (take (length w) s) = length w" by (simp only: t)
  then have "length w \<le> length s" by simp
  moreover have "0 < length w" using assms(1) by simp
  moreover have "length rest = length s - length w" by (simp add: r)
  ultimately show ?thesis by linarith
qed

lemma parse_literal_fuel: "parse_literal w v s \<noteq> Inl OutOfFuel"
  by (simp add: parse_literal_def)

lemma pv_other:
  "c \<noteq> CHR ''n'' \<Longrightarrow> c \<noteq> CHR ''t'' \<Longrightarrow> c \<noteq> CHR ''f'' \<Longrightarrow> c \<noteq> CHR 0x22 \<Longrightarrow>
   c \<noteq> CHR ''['' \<Longrightarrow> c \<noteq> CHR ''{'' \<Longrightarrow> c \<noteq> CHR ''-'' \<Longrightarrow> \<not> is_digit c \<Longrightarrow>
   parse_value (Suc n) (c # cs) = Inl SyntaxError"
  by (simp add: parse_value.simps)

lemma pv_bracket_end:
  "skip_ws cs = [] \<Longrightarrow> parse_value (Suc n) (CHR ''['' # cs) = Inl SyntaxError"
  by (simp add: parse_value.simps)

lemma pv_brace_end:
  "skip_ws cs = [] \<Longrightarrow> parse_value (Suc n) (CHR ''{'' # cs) = Inl SyntaxError"
  by (simp add: parse_value.simps)

lemma pv_Suc_ok:
  assumes se: "\<And>t vs rest. parse_elements n t = Inr (vs, rest) \<Longrightarrow> length rest < length t"
    and sm: "\<And>t kvs rest. parse_members n t = Inr (kvs, rest) \<Longrightarrow> length rest < length t"
    and fe: "\<And>t. 2 * length t + 1 < n \<Longrightarrow> parse_elements n t \<noteq> Inl OutOfFuel"
    and fm: "\<And>t. 2 * length t + 1 < n \<Longrightarrow> parse_members n t \<noteq> Inl OutOfFuel"
  shows "(\<forall>v rest. parse_value (Suc n) s = Inr (v, rest) \<longrightarrow> length rest < length s)
       \<and> (2 * length s < Suc n \<longrightarrow> parse_value (Suc n) s \<noteq> Inl OutOfFuel)"
proof (cases s)
  case Nil
  then show ?thesis by (simp add: parse_value.simps)
next
  case (Cons c cs)
  consider (n) "c = CHR ''n''" | (t) "c = CHR ''t''" | (f) "c = CHR ''f''" | (q) "c = CHR 0x22"
    | (a) "c = CHR ''[''" | (o) "c = CHR ''{''"
    | (num) "c = CHR ''-'' \<or> is_digit c"
    | (other) "c \<noteq> CHR ''n''" "c \<noteq> CHR ''t''" "c \<noteq> CHR ''f''" "c \<noteq> CHR 0x22"
        "c \<noteq> CHR ''[''" "c \<noteq> CHR ''{''" "c \<noteq> CHR ''-''" "\<not> is_digit c"
    by blast
  then show ?thesis
  proof cases
    case n
    show ?thesis
      using parse_literal_shorter[of "''null''" JNull s] parse_literal_fuel[of "''null''" JNull s]
      by (simp add: Cons n pv_null)
  next
    case t
    show ?thesis
      using parse_literal_shorter[of "''true''" "JBool True" s]
        parse_literal_fuel[of "''true''" "JBool True" s]
      by (simp add: Cons t pv_true)
  next
    case f
    show ?thesis
      using parse_literal_shorter[of "''false''" "JBool False" s]
        parse_literal_fuel[of "''false''" "JBool False" s]
      by (simp add: Cons f pv_false)
  next
    case q
    show ?thesis
    proof (cases "parse_chars cs")
      case (Inl e)
      then have "e \<noteq> OutOfFuel" using parse_chars_ok[of cs] by auto
      then show ?thesis using Inl by (simp add: Cons q pv_string)
    next
      case (Inr p)
      obtain str rest where p: "p = (str, rest)" by (cases p)
      have "length rest < length cs" using parse_chars_ok[of cs] Inr p by auto
      then show ?thesis using Inr p by (simp add: Cons q pv_string)
    qed
  next
    case a
    show ?thesis
    proof (cases "skip_ws cs")
      case Nil
      then show ?thesis by (simp add: Cons a pv_bracket_end)
    next
      case sk: (Cons d ds)
      have len: "length (d # ds) \<le> length cs" using length_skip_ws[of cs] by (simp only: sk)
      show ?thesis
      proof (cases "d = CHR '']''")
        case True
        then show ?thesis using len pv_array_empty[of cs ds n] sk by (simp add: Cons a)
      next
        case False
        have e: "parse_value (Suc n) (CHR ''['' # cs) =
                  (case parse_elements n (d # ds) of
                     Inl e \<Rightarrow> Inl e | Inr (vs, rest) \<Rightarrow> Inr (JArr vs, rest))"
          using sk False by (rule pv_array)
        show ?thesis
        proof (cases "parse_elements n (d # ds)")
          case (Inl err)
          have "2 * length s < Suc n \<Longrightarrow> err \<noteq> OutOfFuel"
            using fe[of "d # ds"] len Inl by (auto simp: Cons)
          then show ?thesis using Inl by (auto simp: Cons a e)
        next
          case (Inr p)
          obtain vs rest where p: "p = (vs, rest)" by (cases p)
          have "length rest < length (d # ds)" using se[of "d # ds" vs rest] Inr p by simp
          then show ?thesis using Inr p len by (simp add: Cons a e)
        qed
      qed
    qed
  next
    case o
    show ?thesis
    proof (cases "skip_ws cs")
      case Nil
      then show ?thesis by (simp add: Cons o pv_brace_end)
    next
      case sk: (Cons d ds)
      have len: "length (d # ds) \<le> length cs" using length_skip_ws[of cs] by (simp only: sk)
      show ?thesis
      proof (cases "d = CHR ''}''")
        case True
        then show ?thesis using len pv_object_empty[of cs ds n] sk by (simp add: Cons o)
      next
        case False
        have e: "parse_value (Suc n) (CHR ''{'' # cs) =
                  (case parse_members n (d # ds) of
                     Inl e \<Rightarrow> Inl e | Inr (kvs, rest) \<Rightarrow> Inr (object_of_members kvs, rest))"
          using sk False by (rule pv_object)
        show ?thesis
        proof (cases "parse_members n (d # ds)")
          case (Inl err)
          have "2 * length s < Suc n \<Longrightarrow> err \<noteq> OutOfFuel"
            using fm[of "d # ds"] len Inl by (auto simp: Cons)
          then show ?thesis using Inl by (auto simp: Cons o e)
        next
          case (Inr p)
          obtain kvs rest where p: "p = (kvs, rest)" by (cases p)
          have "length rest < length (d # ds)" using sm[of "d # ds" kvs rest] Inr p by simp
          then show ?thesis using Inr p len by (simp add: Cons o e)
        qed
      qed
    qed
  next
    case num
    show ?thesis
      using parse_number_shorter[of s] parse_number_fuel[of s] pv_number[OF num, of n cs]
      by (simp add: Cons)
  next
    case other
    then show ?thesis by (simp add: Cons pv_other)
  qed
qed

lemma pe_value_error: "parse_value n s = Inl e \<Longrightarrow> parse_elements (Suc n) s = Inl e"
  by (simp add: parse_elements.simps)

lemma pe_value_end:
  "parse_value n s = Inr (v, rest) \<Longrightarrow> skip_ws rest = [] \<Longrightarrow>
   parse_elements (Suc n) s = Inl SyntaxError"
  by (simp add: parse_elements.simps)

lemma pe_Suc_ok:
  assumes sv: "\<And>t v rest. parse_value n t = Inr (v, rest) \<Longrightarrow> length rest < length t"
    and se: "\<And>t vs rest. parse_elements n t = Inr (vs, rest) \<Longrightarrow> length rest < length t"
    and fv: "\<And>t. 2 * length t < n \<Longrightarrow> parse_value n t \<noteq> Inl OutOfFuel"
    and fe: "\<And>t. 2 * length t + 1 < n \<Longrightarrow> parse_elements n t \<noteq> Inl OutOfFuel"
  shows "(\<forall>vs rest. parse_elements (Suc n) s = Inr (vs, rest) \<longrightarrow> length rest < length s)
       \<and> (2 * length s + 1 < Suc n \<longrightarrow> parse_elements (Suc n) s \<noteq> Inl OutOfFuel)"
proof (cases "parse_value n s")
  case (Inl e)
  have "2 * length s + 1 < Suc n \<Longrightarrow> e \<noteq> OutOfFuel" using fv[of s] Inl by auto
  then show ?thesis using pe_value_error[OF Inl] by auto
next
  case (Inr p)
  obtain v rest where p: "p = (v, rest)" by (cases p)
  have pv: "parse_value n s = Inr (v, rest)" using Inr p by simp
  have lr: "length rest < length s" using sv[OF pv] .
  show ?thesis
  proof (cases "skip_ws rest")
    case Nil
    then show ?thesis using pe_value_end[OF pv] by simp
  next
    case sk: (Cons c cs)
    have lc: "length (c # cs) \<le> length rest" using length_skip_ws[of rest] by (simp only: sk)
    have lw: "length (skip_ws cs) \<le> length cs" by (rule length_skip_ws)
    note e = pe_step[OF pv sk]
    show ?thesis
    proof (cases "c = CHR '',''")
      case True
      show ?thesis
      proof (cases "parse_elements n (skip_ws cs)")
        case (Inl err)
        have "2 * length s + 1 < Suc n \<Longrightarrow> err \<noteq> OutOfFuel"
          using fe[of "skip_ws cs"] Inl lr lc lw by auto
        then show ?thesis using Inl True by (auto simp: e)
      next
        case (Inr q)
        obtain vs rest' where q: "q = (vs, rest')" by (cases q)
        have "length rest' < length (skip_ws cs)" using se[of "skip_ws cs" vs rest'] Inr q by simp
        then show ?thesis using Inr q True lr lc lw by (simp add: e)
      qed
    next
      case False
      then show ?thesis using lr lc by (simp add: e)
    qed
  qed
qed

lemma pm_nil: "parse_members (Suc n) [] = Inl SyntaxError"
  by (simp add: parse_members.simps)

lemma pm_not_quote: "q \<noteq> CHR 0x22 \<Longrightarrow> parse_members (Suc n) (q # s1) = Inl SyntaxError"
  by (simp add: parse_members.simps)

lemma pm_chars_error:
  "parse_chars s1 = Inl e \<Longrightarrow> parse_members (Suc n) (CHR 0x22 # s1) = Inl e"
  by (simp add: parse_members.simps)

lemma pm_key_end:
  "parse_chars s1 = Inr (k, rest) \<Longrightarrow> skip_ws rest = [] \<Longrightarrow>
   parse_members (Suc n) (CHR 0x22 # s1) = Inl SyntaxError"
  by (simp add: parse_members.simps)

lemma pm_no_colon:
  "parse_chars s1 = Inr (k, rest) \<Longrightarrow> skip_ws rest = c # cs \<Longrightarrow> c \<noteq> CHR '':'' \<Longrightarrow>
   parse_members (Suc n) (CHR 0x22 # s1) = Inl SyntaxError"
  by (simp add: parse_members.simps)

lemma pm_value_error:
  "parse_chars s1 = Inr (k, rest) \<Longrightarrow> skip_ws rest = CHR '':'' # cs \<Longrightarrow>
   parse_value n (skip_ws cs) = Inl e \<Longrightarrow>
   parse_members (Suc n) (CHR 0x22 # s1) = Inl e"
  by (simp add: parse_members.simps)

lemma pm_value_end:
  "parse_chars s1 = Inr (k, rest) \<Longrightarrow> skip_ws rest = CHR '':'' # cs \<Longrightarrow>
   parse_value n (skip_ws cs) = Inr (v, rest') \<Longrightarrow> skip_ws rest' = [] \<Longrightarrow>
   parse_members (Suc n) (CHR 0x22 # s1) = Inl SyntaxError"
  by (simp add: parse_members.simps)

lemma pm_Suc_ok:
  assumes sv: "\<And>t v rest. parse_value n t = Inr (v, rest) \<Longrightarrow> length rest < length t"
    and sm: "\<And>t kvs rest. parse_members n t = Inr (kvs, rest) \<Longrightarrow> length rest < length t"
    and fv: "\<And>t. 2 * length t < n \<Longrightarrow> parse_value n t \<noteq> Inl OutOfFuel"
    and fm: "\<And>t. 2 * length t + 1 < n \<Longrightarrow> parse_members n t \<noteq> Inl OutOfFuel"
  shows "(\<forall>kvs rest. parse_members (Suc n) s = Inr (kvs, rest) \<longrightarrow> length rest < length s)
       \<and> (2 * length s + 1 < Suc n \<longrightarrow> parse_members (Suc n) s \<noteq> Inl OutOfFuel)"
proof (cases s)
  case Nil
  then show ?thesis by (simp add: pm_nil)
next
  case (Cons q s1)
  show ?thesis
  proof (cases "q = CHR 0x22")
    case False
    then show ?thesis by (simp add: Cons pm_not_quote)
  next
    case quote: True
    show ?thesis
    proof (cases "parse_chars s1")
      case (Inl e)
      then have "e \<noteq> OutOfFuel" using parse_chars_ok[of s1] by auto
      then show ?thesis using pm_chars_error[OF Inl, of n] by (simp add: Cons quote)
    next
      case (Inr p)
      obtain k rest where p: "p = (k, rest)" by (cases p)
      have pc: "parse_chars s1 = Inr (k, rest)" using Inr p by simp
      have l1: "length rest < length s1" using parse_chars_ok[of s1] pc by auto
      show ?thesis
      proof (cases "skip_ws rest")
        case Nil
        then show ?thesis using pm_key_end[OF pc, of n] by (simp add: Cons quote)
      next
        case sk: (Cons c cs)
        have l2: "length (c # cs) \<le> length rest" using length_skip_ws[of rest] by (simp only: sk)
        have l3: "length (skip_ws cs) \<le> length cs" by (rule length_skip_ws)
        show ?thesis
        proof (cases "c = CHR '':''")
          case False
          then show ?thesis using pm_no_colon[OF pc sk, of n] by (simp add: Cons quote)
        next
          case colon: True
          have sk': "skip_ws rest = CHR '':'' # cs" using sk colon by simp
          show ?thesis
          proof (cases "parse_value n (skip_ws cs)")
            case (Inl e)
            have "2 * length s + 1 < Suc n \<Longrightarrow> e \<noteq> OutOfFuel"
              using fv[of "skip_ws cs"] Inl l1 l2 l3 by (auto simp: Cons)
            then show ?thesis using pm_value_error[OF pc sk' Inl] by (auto simp: Cons quote)
          next
            case (Inr p')
            obtain v rest' where p': "p' = (v, rest')" by (cases p')
            have pv: "parse_value n (skip_ws cs) = Inr (v, rest')" using Inr p' by simp
            have l4: "length rest' < length (skip_ws cs)" using sv[OF pv] .
            show ?thesis
            proof (cases "skip_ws rest'")
              case Nil
              then show ?thesis using pm_value_end[OF pc sk' pv] by (simp add: Cons quote)
            next
              case sk2: (Cons c' cs')
              have l5: "length (c' # cs') \<le> length rest'"
                using length_skip_ws[of rest'] by (simp only: sk2)
              have l6: "length (skip_ws cs') \<le> length cs'" by (rule length_skip_ws)
              note e = pm_step[OF pc sk' pv sk2]
              show ?thesis
              proof (cases "c' = CHR '',''")
                case True
                show ?thesis
                proof (cases "parse_members n (skip_ws cs')")
                  case (Inl err)
                  have "2 * length s + 1 < Suc n \<Longrightarrow> err \<noteq> OutOfFuel"
                    using fm[of "skip_ws cs'"] Inl l1 l2 l3 l4 l5 l6 by (auto simp: Cons)
                  then show ?thesis using Inl True by (auto simp: Cons quote e)
                next
                  case (Inr q')
                  obtain kvs rest'' where q': "q' = (kvs, rest'')" by (cases q')
                  have "length rest'' < length (skip_ws cs')"
                    using sm[of "skip_ws cs'" kvs rest''] Inr q' by simp
                  then show ?thesis using Inr q' True l1 l2 l3 l4 l5 l6
                    by (simp add: Cons quote e)
                qed
              next
                case False
                then show ?thesis using l1 l2 l3 l4 l5 by (simp add: Cons quote e)
              qed
            qed
          qed
        qed
      qed
    qed
  qed
qed

lemma parser_ok:
  "(\<forall>s. (\<forall>v rest. parse_value n s = Inr (v, rest) \<longrightarrow> length rest < length s)
        \<and> (2 * length s < n \<longrightarrow> parse_value n s \<noteq> Inl OutOfFuel))
   \<and> (\<forall>s. (\<forall>vs rest. parse_elements n s = Inr (vs, rest) \<longrightarrow> length rest < length s)
        \<and> (2 * length s + 1 < n \<longrightarrow> parse_elements n s \<noteq> Inl OutOfFuel))
   \<and> (\<forall>s. (\<forall>kvs rest. parse_members n s = Inr (kvs, rest) \<longrightarrow> length rest < length s)
        \<and> (2 * length s + 1 < n \<longrightarrow> parse_members n s \<noteq> Inl OutOfFuel))"
proof (induction n)
  case 0
  show ?case by (simp add: parse_value.simps parse_elements.simps parse_members.simps)
next
  case (Suc n)
  have sv: "\<And>t v rest. parse_value n t = Inr (v, rest) \<Longrightarrow> length rest < length t"
    and se: "\<And>t vs rest. parse_elements n t = Inr (vs, rest) \<Longrightarrow> length rest < length t"
    and sm: "\<And>t kvs rest. parse_members n t = Inr (kvs, rest) \<Longrightarrow> length rest < length t"
    and fv: "\<And>t. 2 * length t < n \<Longrightarrow> parse_value n t \<noteq> Inl OutOfFuel"
    and fe: "\<And>t. 2 * length t + 1 < n \<Longrightarrow> parse_elements n t \<noteq> Inl OutOfFuel"
    and fm: "\<And>t. 2 * length t + 1 < n \<Longrightarrow> parse_members n t \<noteq> Inl OutOfFuel"
    using Suc by blast+
  have a: "(\<forall>v rest. parse_value (Suc n) s = Inr (v, rest) \<longrightarrow> length rest < length s)
       \<and> (2 * length s < Suc n \<longrightarrow> parse_value (Suc n) s \<noteq> Inl OutOfFuel)" for s
    by (rule pv_Suc_ok[where n = n]) (erule se, erule sm, erule fe, erule fm)
  have b: "(\<forall>vs rest. parse_elements (Suc n) s = Inr (vs, rest) \<longrightarrow> length rest < length s)
       \<and> (2 * length s + 1 < Suc n \<longrightarrow> parse_elements (Suc n) s \<noteq> Inl OutOfFuel)" for s
    by (rule pe_Suc_ok[where n = n]) (erule sv, erule se, erule fv, erule fe)
  have c: "(\<forall>kvs rest. parse_members (Suc n) s = Inr (kvs, rest) \<longrightarrow> length rest < length s)
       \<and> (2 * length s + 1 < Suc n \<longrightarrow> parse_members (Suc n) s \<noteq> Inl OutOfFuel)" for s
    by (rule pm_Suc_ok[where n = n]) (erule sv, erule sm, erule fv, erule fm)
  show ?case
    by (rule conjI, rule allI, rule a, rule conjI, rule allI, rule b, rule allI, rule c)
qed

lemma parse_text_fuel: "parse_value (Suc (2 * length s)) (skip_ws s) \<noteq> Inl OutOfFuel"
proof -
  have "2 * length (skip_ws s) < Suc (2 * length s)" using length_skip_ws[of s] by simp
  then show ?thesis using parser_ok[of "Suc (2 * length s)"] by blast
qed

lemma JSON_parse_fuel: "JSON_parse v \<noteq> Inl OutOfFuel"
proof (cases "parse_value (Suc (2 * length (ToString v))) (skip_ws (ToString v))")
  case (Inl e)
  then have "e \<noteq> OutOfFuel" using parse_text_fuel[of "ToString v"] by auto
  then show ?thesis using Inl by (simp add: JSON_parse_def parse_text_def)
next
  case (Inr p)
  then show ?thesis by (cases p) (simp add: JSON_parse_def parse_text_def)
qed

section \<open>What the parsed params hold\<close>

lemma truthy_json_image: "truthy (json_image v) = truthy v"
  by (cases v) (simp_all add: object_of_members_def)

lemma map_of_fold_update:
  "map_of (fold (\<lambda>(k, v). AList.update k v) ps qs) = map_of qs ++ map_of (rev ps)"
  by (induction ps arbitrary: qs) (auto simp: AList.update_conv' map_add_def fun_eq_iff split: option.splits)

lemma map_of_rev_distinct:
  "distinct (map fst ps) \<Longrightarrow> map_of (rev ps) = map_of ps"
proof (induction ps)
  case Nil
  show ?case by simp
next
  case (Cons p ps)
  obtain k v where p: "p = (k, v)" by (cases p)
  have "map_of ps k = None" using Cons.prems by (simp add: p map_of_eq_None_iff)
  then show ?case using Cons
    by (auto simp: p fun_eq_iff map_add_def split: option.splits)
qed

lemma map_of_members:
  "distinct (map fst ps) \<Longrightarrow> map_of (fold (\<lambda>(k, v). AList.update k v) ps []) = map_of ps"
  by (simp add: map_of_fold_update map_of_rev_distinct)

lemma map_of_image:
  "distinct (map fst kvs) \<Longrightarrow>
   map_of (filter (\<lambda>p. snd p \<noteq> JUndefined) (map (map_prod id json_image) kvs)) k
     = (case map_of kvs k of
          None \<Rightarrow> None
        | Some v \<Rightarrow> if v = JUndefined then None else Some (json_image v))"
proof (induction kvs)
  case Nil
  show ?case by simp
next
  case (Cons p kvs)
  obtain k' v where p: "p = (k', v)" by (cases p)
  have "map_of kvs k' = None" using Cons.prems by (simp add: p map_of_eq_None_iff)
  then show ?case using Cons by (auto simp: p json_image_undefined)
qed

lemma get_prop_json_image:
  assumes "distinct (map fst kvs)"
  shows "get_prop (json_image (JObj kvs)) k = json_image (get_prop (JObj kvs) k)"
proof -
  let ?ps = "filter (\<lambda>p. snd p \<noteq> JUndefined) (map (map_prod id json_image) kvs)"
  have "distinct (map fst ?ps)"
    using assms by (simp add: distinct_map_filter comp_def)
  then have "map_of (fold (\<lambda>(k, v). AList.update k v) ?ps []) = map_of ?ps"
    by (rule map_of_members)
  then show ?thesis
    using map_of_image[OF assms, of k]
    by (simp add: object_of_members_def split: option.splits)
qed

section \<open>The steps of createIOSWebviewMessage\<close>

lemma map_from_Inr:
  "(\<And>x j. x \<in> set xs \<Longrightarrow> f x j = Inr (g x j)) \<Longrightarrow>
   map_from i f xs = Inr (map (\<lambda>(j, x). g x j) (enumerate i xs))"
  by (induction xs arbitrary: i) simp_all

lemma process_button_eq:
  "\<not> nullish b \<Longrightarrow> process_button b j = Inr (normalize_button b)"
  by (simp add: process_button_def normalize_button_def normalized_def)

lemma process_button_nullish: "nullish b \<Longrightarrow> process_button b j = Inl TypeError"
  by (simp add: process_button_def)

lemma map_from_process_Inl:
  "\<exists>x \<in> set xs. nullish x \<Longrightarrow> map_from i process_button xs = Inl TypeError"
proof (induction xs arbitrary: i)
  case Nil
  then show ?case by simp
next
  case (Cons x xs)
  show ?case
  proof (cases "nullish x")
    case True
    then show ?thesis by (simp add: process_button_nullish)
  next
    case False
    then have "\<exists>y \<in> set xs. nullish y" using Cons.prems by auto
    then have "map_from (Suc i) process_button xs = Inl TypeError" by (rule Cons.IH)
    then show ?thesis using False by (simp add: process_button_eq)
  qed
qed

lemma map_enumerate_ignore: "map (\<lambda>(j, x). g x) (enumerate i xs) = map g xs"
  by (induction xs arbitrary: i) simp_all

lemma processedButtons_eq:
  "list_all (\<lambda>b. \<not> nullish b) bs \<Longrightarrow> Array_map process_button bs = Inr (map normalize_button bs)"
  using map_from_Inr[of bs process_button "\<lambda>b j. normalize_button b" 0]
  by (simp add: Array_map_def process_button_eq list_all_iff map_enumerate_ignore)

lemma normalize_button_not_nullish: "\<not> nullish b \<Longrightarrow> \<not> nullish (normalize_button b)"
  by (simp add: normalize_button_def normalized_def nullish_def)

lemma normalize_button_name:
  "(get_prop (normalize_button b) ''name'' = JStr ''cta_url'') = is_webview_button b"
  by (auto simp: normalize_button_def normalized_def is_webview_button_def)

lemma Array_filter_Inr:
  "(\<And>x. x \<in> set xs \<Longrightarrow> p x = Inr (q x)) \<Longrightarrow> Array_filter p xs = Inr (filter q xs)"
  by (induction xs) simp_all

lemma urlButtons_eq:
  assumes "list_all (\<lambda>b. \<not> nullish b) bs"
  shows "Array_filter is_url_button (map normalize_button bs)
           = Inr (map normalized (filter is_webview_button bs))"
proof -
  have "Array_filter is_url_button (map normalize_button bs)
          = Inr (filter (\<lambda>p. get_prop p ''name'' = JStr ''cta_url'') (map normalize_button bs))"
  proof (rule Array_filter_Inr)
    fix x assume "x \<in> set (map normalize_button bs)"
    then have "\<not> nullish x" using assms normalize_button_not_nullish by (auto simp: list_all_iff)
    then show "is_url_button x = Inr (get_prop x ''name'' = JStr ''cta_url'')"
      by (simp add: is_url_button_def)
  qed
  moreover have "filter (\<lambda>p. get_prop p ''name'' = JStr ''cta_url'') (map normalize_button bs)
                   = map normalized (filter is_webview_button bs)"
    by (induction bs) (auto simp: normalize_button_name, simp_all add: normalize_button_def)
  ultimately show ?thesis by simp
qed

lemma buttonParams_keys: "\<exists>kvs. buttonParams b = JObj kvs \<and> distinct (map fst kvs)"
  by (simp add: buttonParams_def)

lemma json_image_buttonParams_obj: "\<exists>kvs. json_image (buttonParams b) = JObj kvs"
  by (simp add: buttonParams_def object_of_members_def)

lemma JSON_parse_buttonParams:
  "JSON_parse (JSON_stringify (buttonParams b)) = Inr (json_image (buttonParams b))"
  by (rule JSON_parse_stringify) (simp add: buttonParams_def)

lemma try_parse_urls_normalized:
  "try_parse_urls (normalized b) =
     Inr (canonical_url (json_image (buttonParams b)),
          js_or (get_prop (json_image (buttonParams b)) ''landing_page_url'')
            (js_or (get_prop (json_image (buttonParams b)) ''url'') (JStr [])))"
proof -
  obtain kvs where "json_image (buttonParams b) = JObj kvs"
    using json_image_buttonParams_obj by blast
  then have "\<not> nullish (json_image (buttonParams b))" by (simp add: nullish_def)
  moreover have "get_prop (normalized b) ''buttonParamsJson'' = JSON_stringify (buttonParams b)"
    by (simp add: normalized_def)
  moreover have "\<not> nullish (normalized b)" by (simp add: normalized_def nullish_def)
  ultimately show ?thesis
    by (simp add: try_parse_urls_def JSON_parse_buttonParams canonical_url_def)
qed

lemma tapTarget_normalized:
  "tapTarget (normalized b) j = Inr (tap_target_of (canonical_url (json_image (buttonParams b))) j)"
  by (simp add: tapTarget_def try_parse_urls_normalized)

lemma enumerate_map': "enumerate i (map f xs) = map (\<lambda>(j, x). (j, f x)) (enumerate i xs)"
  by (induction xs arbitrary: i) simp_all

lemma tapTargetList_eq:
  "Array_map tapTarget (map normalized (filter is_webview_button bs)) = Inr (tap_targets bs)"
proof -
  let ?g = "\<lambda>x j. tap_target_of (canonical_url (case JSON_parse (get_prop x ''buttonParamsJson'') of Inr p \<Rightarrow> p | Inl e \<Rightarrow> JUndefined)) j"
  have "map_from 0 tapTarget (map normalized (filter is_webview_button bs))
          = Inr (map (\<lambda>(j, x). ?g x j) (enumerate 0 (map normalized (filter is_webview_button bs))))"
  proof (rule map_from_Inr)
    fix x j assume "x \<in> set (map normalized (filter is_webview_button bs))"
    then obtain b where x: "x = normalized b" by auto
    have "get_prop (normalized b) ''buttonParamsJson'' = JSON_stringify (buttonParams b)"
      by (simp add: normalized_def)
    then show "tapTarget x j = Inr (?g x j)"
      by (simp add: x tapTarget_normalized JSON_parse_buttonParams)
  qed
  moreover have "map (\<lambda>(j, x). ?g x j) (enumerate 0 (map normalized (filter is_webview_button bs)))
                   = tap_targets bs"
    by (simp add: tap_targets_def enumerate_map' comp_def case_prod_beta normalized_def
          JSON_parse_buttonParams)
  ultimately show ?thesis by (simp add: Array_map_def)
qed

lemma createIOSWebviewMessage_accepted:
  assumes "\<not> nullish options" "buttons_of options = JArr bs" "list_all (\<lambda>b. \<not> nullish b) bs"
  shows "createIOSWebviewMessage options = Inr (JObj [(''interactiveMessage'', message_of options bs)])"
  using assms(1,2)
  by (simp add: createIOSWebviewMessage_def Let_def buttons_of_def processedButtons_eq[OF assms(3)]
        urlButtons_eq[OF assms(3)] tapTargetList_eq message_of_def)

lemma createIOSWebviewMessage_rejected:
  assumes "\<not> accepted options"
  shows "createIOSWebviewMessage options = Inl TypeError"
proof (cases "nullish options")
  case True
  then show ?thesis by (simp add: createIOSWebviewMessage_def)
next
  case False
  show ?thesis
  proof (cases "buttons_of options")
    case (JArr bs)
    then have "\<exists>b \<in> set bs. nullish b" using assms False by (auto simp: accepted_def list_all_iff)
    then have "Array_map process_button bs = Inl TypeError"
      unfolding Array_map_def by (rule map_from_process_Inl)
    then show ?thesis using False JArr
      by (simp add: createIOSWebviewMessage_def Let_def buttons_of_def)
  qed (use False in \<open>simp_all add: createIOSWebviewMessage_def Let_def buttons_of_def\<close>)
qed

section \<open>The message that is returned\<close>

lemma map_of_add_footer: "k \<noteq> ''footer'' \<Longrightarrow> map_of (add_footer f m) k = map_of m k"
  by (simp add: add_footer_def update_conv')

lemma map_of_add_header: "k \<noteq> ''header'' \<Longrightarrow> map_of (add_header i t s m) k = map_of m k"
  by (simp add: add_header_def Let_def update_conv')

lemma message_of_nativeFlowMessage:
  "get_prop (message_of options bs) ''nativeFlowMessage'' =
     JObj [(''buttons'', JArr (map normalize_button bs)),
           (''messageParamsJson'', JSON_stringify (messageParams (tap_targets bs)))]"
  by (simp add: message_of_def map_of_add_footer map_of_add_header base_message_def)

lemma message_of_contextInfo:
  "get_prop (message_of options bs) ''contextInfo'' =
     JObj (object_spread [(''dataSharingContext'', JObj [(''showMmDisclosure'', JBool False)])]
             (with_default (get_prop options ''contextInfo'') (JObj [])))"
  by (simp add: message_of_def map_of_add_footer map_of_add_header base_message_def)

lemma returned_buttons:
  "get_path (JObj [(''interactiveMessage'', message_of options bs)])
     [''interactiveMessage'', ''nativeFlowMessage'', ''buttons''] = JArr (map normalize_button bs)"
  by (simp add: get_path_def message_of_nativeFlowMessage)

lemma returned_messageParamsJson:
  "get_path (JObj [(''interactiveMessage'', message_of options bs)])
     [''interactiveMessage'', ''nativeFlowMessage'', ''messageParamsJson'']
   = JSON_stringify (messageParams (tap_targets bs))"
  by (simp add: get_path_def message_of_nativeFlowMessage)

lemma accepted_buttons:
  "accepted options \<Longrightarrow> buttons_of options = JArr bs \<Longrightarrow>
   \<not> nullish options \<and> list_all (\<lambda>b. \<not> nullish b) bs"
  by (simp add: accepted_def)

lemma accepted_returns:
  "accepted options \<Longrightarrow> buttons_of options = JArr bs \<Longrightarrow>
   createIOSWebviewMessage options = Inr (JObj [(''interactiveMessage'', message_of options bs)])"
  using accepted_buttons[of options bs] createIOSWebviewMessage_accepted[of options bs] by simp

lemma accepted_has_buttons: "accepted options \<Longrightarrow> \<exists>bs. buttons_of options = JArr bs"
  by (cases "buttons_of options") (simp_all add: accepted_def)

lemma buttonParams_fields:
  "buttonParams b =
     JObj [(''display_text'',
              if truthy (get_prop b ''displayText'') then get_prop b ''displayText''
              else get_prop b ''text''),
           (''url'', get_prop b ''url''),
           (''webview_presentation'',
              if truthy (get_prop b ''webviewPresentation'') then get_prop b ''webviewPresentation''
              else JNull),
           (''payment_link_preview'',
              if get_prop b ''paymentLinkPreview'' = JUndefined then JBool False
              else get_prop b ''paymentLinkPreview''),
           (''landing_page_url'',
              if truthy (get_prop b ''landingPageUrl'') then get_prop b ''landingPageUrl''
              else get_prop b ''url''),
           (''webview_interaction'',
              if get_prop b ''webviewInteraction'' = JUndefined then JBool True
              else get_prop b ''webviewInteraction'')]"
  by (simp add: buttonParams_def js_or_def)

lemma stringify_buttonParams: "\<exists>t. JSON_stringify (buttonParams b) = JStr t"
  by (simp add: JSON_stringify_def buttonParams_def)

lemma url_buttons_filter:
  "filter (\<lambda>p. get_prop p ''name'' = JStr ''cta_url'') (map normalize_button bs)
     = map normalized (filter is_webview_button bs)"
  by (induction bs) (auto simp: normalize_button_name, simp_all add: normalize_button_def)

lemma Array_map_process_Inr:
  assumes "Array_map process_button bs = Inr ps"
  shows "list_all (\<lambda>b. \<not> nullish b) bs \<and> ps = map normalize_button bs"
proof -
  have na: "list_all (\<lambda>b. \<not> nullish b) bs"
  proof (rule ccontr)
    assume "\<not> list_all (\<lambda>b. \<not> nullish b) bs"
    then have "\<exists>x \<in> set bs. nullish x" by (auto simp: list_all_iff)
    then have "map_from 0 process_button bs = Inl TypeError" by (rule map_from_process_Inl)
    then show False using assms by (simp add: Array_map_def)
  qed
  then show ?thesis using assms processedButtons_eq[OF na] by simp
qed

lemma sample_accepted:
  "accepted sample_options" "buttons_of sample_options = JArr sample_buttons"
  by (simp_all add: accepted_def buttons_of_def sample_options_def with_default_def nullish_def
        sample_buttons_def sample_button_def)

section \<open>Parsing twice changes nothing\<close>

lemma update_new: "k \<notin> fst ` set al \<Longrightarrow> AList.update k v al = al @ [(k, v)]"
  by (induction al) auto

lemma fold_update_distinct:
  "distinct (map fst ps) \<Longrightarrow> fst ` set ps \<inter> fst ` set acc = {} \<Longrightarrow>
   fold (\<lambda>(k, v). AList.update k v) ps acc = acc @ ps"
proof (induction ps arbitrary: acc)
  case Nil
  show ?case by simp
next
  case (Cons p ps)
  obtain k v where p: "p = (k, v)" by (cases p)
  have new: "k \<notin> fst ` set acc" using Cons.prems(2) by (auto simp: p)
  have "fold (\<lambda>(k, v). AList.update k v) ps (acc @ [(k, v)]) = (acc @ [(k, v)]) @ ps"
  proof (rule Cons.IH)
    show "distinct (map fst ps)" using Cons.prems(1) by simp
    show "fst ` set ps \<inter> fst ` set (acc @ [(k, v)]) = {}"
      using Cons.prems by (auto simp: p)
  qed
  then show ?case by (simp add: p update_new[OF new])
qed

lemma object_of_members_distinct:
  "distinct (map fst ps) \<Longrightarrow> object_of_members ps = JObj ps"
  using fold_update_distinct[of ps "[]"] by (simp add: object_of_members_def)

lemma fold_update_keys_distinct:
  "distinct (map fst acc) \<Longrightarrow> distinct (map fst (fold (\<lambda>(k, v). AList.update k v) ps acc))"
  by (induction ps arbitrary: acc) (auto simp: distinct_update)

lemma set_update_subset: "set (AList.update k v al) \<subseteq> insert (k, v) (set al)"
  by (induction al) auto

lemma fold_update_set:
  "set (fold (\<lambda>(k, v). AList.update k v) ps acc) \<subseteq> set ps \<union> set acc"
proof (induction ps arbitrary: acc)
  case Nil
  show ?case by simp
next
  case (Cons p ps)
  obtain k v where p: "p = (k, v)" by (cases p)
  show ?case using Cons.IH[of "AList.update k v acc"] set_update_subset[of k v acc]
    by (auto simp: p)
qed

lemma json_image_idem: "json_image (json_image v) = json_image v"
proof (induction v)
  case (JArr xs)
  let ?f = "\<lambda>v. if v = JUndefined then JNull else v"
  have e: "?f (json_image (?f (json_image x))) = ?f (json_image x)" if "x \<in> set xs" for x
  proof (cases "json_image x = JUndefined")
    case True
    then show ?thesis by simp
  next
    case False
    then show ?thesis using JArr.IH[OF that] by simp
  qed
  have "map (\<lambda>x. ?f (json_image (?f (json_image x)))) xs = map (\<lambda>x. ?f (json_image x)) xs"
    by (rule map_cong[OF refl]) (rule e)
  then show ?case by (simp only: json_image.simps map_map comp_def)
next
  case (JObj kvs)
  define ps where "ps = filter (\<lambda>p. snd p \<noteq> JUndefined) (map (map_prod id json_image) kvs)"
  define L where "L = fold (\<lambda>(k, v). AList.update k v) ps []"
  have img: "json_image (JObj kvs) = JObj L"
    by (simp only: json_image.simps object_of_members_def ps_def L_def)
  have d: "distinct (map fst L)" unfolding L_def by (rule fold_update_keys_distinct) simp
  have fixed: "snd p \<noteq> JUndefined \<and> map_prod id json_image p = p" if "p \<in> set L" for p
  proof -
    have "p \<in> set ps" using that fold_update_set[of ps "[]"] unfolding L_def by auto
    then obtain q where q: "q \<in> set kvs" "p = map_prod id json_image q" "snd p \<noteq> JUndefined"
      unfolding ps_def by auto
    obtain k v where kv: "q = (k, v)" by (cases q)
    have "v \<in> Basic_BNFs.snds q" by (simp add: kv)
    then have "json_image (json_image v) = json_image v" using JObj.IH[OF q(1)] by blast
    then show ?thesis using q by (simp add: kv)
  qed
  have a: "map (map_prod id json_image) L = L"
    by (rule map_idI) (use fixed in blast)
  have b: "filter (\<lambda>p. snd p \<noteq> JUndefined) L = L"
    by (rule filter_True) (use fixed in blast)
  have "json_image (JObj L) = object_of_members L"
    by (simp only: json_image.simps a b)
  also have "\<dots> = JObj L" using d by (rule object_of_members_distinct)
  finally show ?case by (simp only: img)
qed simp_all

lemma get_prop_buttonParams_image:
  "get_prop (json_image (buttonParams b)) k = json_image (get_prop (buttonParams b) k)"
proof -
  obtain kvs where k: "buttonParams b = JObj kvs" "distinct (map fst kvs)"
    using buttonParams_keys by blast
  show ?thesis using get_prop_json_image[OF k(2), of k] by (simp add: k(1))
qed

lemma js_or_json_image: "js_or (json_image a) (json_image b) = json_image (js_or a b)"
  by (simp add: js_or_def truthy_json_image)

lemma canonical_url_image:
  "canonical_url (json_image (buttonParams b)) = json_image (canonical_url (buttonParams b))"
  by (simp add: canonical_url_def get_prop_buttonParams_image js_or_def truthy_json_image)

lemma canonical_url_raw:
  "canonical_url (buttonParams b) =
     (if truthy (get_prop b ''url'') then get_prop b ''url''
      else if truthy (get_prop b ''landingPageUrl'') then get_prop b ''landingPageUrl''
      else JStr [])"
  by (simp add: canonical_url_def buttonParams_def js_or_def)

lemma tap_target_stable:
  "json_image (tap_target_of (canonical_url (json_image (buttonParams b))) j)
     = tap_target_of (canonical_url (json_image (buttonParams b))) j"
proof -
  let ?c = "canonical_url (json_image (buttonParams b))"
  have c: "json_image ?c = ?c" by (simp only: canonical_url_image json_image_idem)
  have "?c \<noteq> JUndefined"
    by (simp add: canonical_url_image json_image_undefined canonical_url_raw)
       (auto simp: js_or_def)
  then show ?thesis
    by (simp add: tap_target_of_def c object_of_members_def)
qed

lemma tap_targets_stable: "map json_image (tap_targets bs) = tap_targets bs"
  by (simp add: tap_targets_def tap_target_stable case_prod_beta comp_def del: json_image.simps)

lemma tap_targets_defined: "x \<in> set (tap_targets bs) \<Longrightarrow> x \<noteq> JUndefined"
  by (auto simp: tap_targets_def tap_target_of_def)

lemma messageParams_stable:
  "json_image (messageParams (tap_targets bs)) = messageParams (tap_targets bs)"
proof -
  let ?tl = "tap_targets bs"
  have m: "map (\<lambda>v. if v = JUndefined then JNull else v) (map json_image ?tl) = ?tl"
    using tap_targets_defined[of _ bs] by (simp add: tap_targets_stable map_idI)
  have h: "?tl \<noteq> [] \<Longrightarrow> json_image (hd ?tl) = hd ?tl \<and> hd ?tl \<noteq> JUndefined"
  proof -
    assume ne: "?tl \<noteq> []"
    then have "hd ?tl \<in> set ?tl" by simp
    moreover have "json_image (hd ?tl) = hd (map json_image ?tl)" using ne by (simp add: hd_map)
    ultimately show ?thesis using tap_targets_defined[of "hd ?tl" bs] by (simp add: tap_targets_stable)
  qed
  show ?thesis
  proof (cases "?tl = []")
    case True
    then show ?thesis by (simp add: messageParams_def object_of_members_def)
  next
    case False
    then show ?thesis using h m
      by (simp add: messageParams_def object_of_members_def)
  qed
qed

lemma JSON_parse_messageParams:
  "JSON_parse (JSON_stringify (messageParams (tap_targets bs))) = Inr (messageParams (tap_targets bs))"
  using JSON_parse_stringify[of "messageParams (tap_targets bs)"]
  by (simp only: messageParams_stable) (simp add: messageParams_def)

section \<open>Facts about the samples and the merge\<close>

lemma nth_tap_targets:
  "j < length (filter is_webview_button bs) \<Longrightarrow>
   tap_targets bs ! j =
     tap_target_of (canonical_url (json_image (buttonParams (filter is_webview_button bs ! j)))) j"
  by (simp add: tap_targets_def nth_enumerate_eq)

lemma length_tap_targets: "length (tap_targets bs) = length (filter is_webview_button bs)"
  by (simp add: tap_targets_def)

lemma get_prop_normalized_json:
  "get_prop (normalized b) ''buttonParamsJson'' = JSON_stringify (buttonParams b)"
  by (simp add: normalized_def)

lemma tap_targets_sample:
  "tap_targets sample_buttons =
     [tap_target_of (JStr ''https://x.com'') 0, tap_target_of (JStr ''https://y.org'') 1]"
proof -
  let ?third = "JObj [(''name'', JStr ''cta_url''), (''url'', JStr ''https://y.org'')]"
  have f: "filter is_webview_button sample_buttons = [sample_button, ?third]"
    by (simp add: sample_buttons_def sample_button_def is_webview_button_def)
  have "canonical_url (json_image (buttonParams sample_button)) = JStr ''https://x.com''"
    by (simp add: canonical_url_image canonical_url_raw) (simp add: sample_button_def)
  moreover have "canonical_url (json_image (buttonParams ?third)) = JStr ''https://y.org''"
    by (simp add: canonical_url_image canonical_url_raw)
  ultimately show ?thesis by (simp add: tap_targets_def f)
qed

lemma malformed_accepted:
  "accepted (JObj [(''buttons'', JArr malformed_buttons)])"
  "buttons_of (JObj [(''buttons'', JArr malformed_buttons)]) = JArr malformed_buttons"
  by (simp_all add: accepted_def buttons_of_def with_default_def nullish_def malformed_buttons_def
        presupplied_button_def)

lemma parse_not_json: "JSON_parse (JStr ''not json'') = Inl SyntaxError"
proof -
  have "skip_ws ''not json'' = ''not json''" by (simp add: skip_ws_def is_ws_def)
  moreover have "parse_value (Suc (2 * length ''not json'')) ''not json''
                   = parse_literal ''null'' JNull ''not json''"
    by (rule pv_null)
  moreover have "parse_literal ''null'' JNull ''not json'' = Inl SyntaxError"
    by (simp add: parse_literal_def)
  ultimately show ?thesis by (simp only: JSON_parse_def parse_text_def ToString.simps sum.case)
qed

lemma footer_accepted: "accepted footer_options"
  by (simp add: accepted_def buttons_of_def with_default_def nullish_def footer_options_def)

lemma fold_update_keys:
  "fst ` set (fold (\<lambda>(k, v). AList.update k v) ps acc) = fst ` set acc \<union> fst ` set ps"
proof (induction ps arbitrary: acc)
  case Nil
  show ?case by simp
next
  case (Cons p ps)
  obtain k v where p: "p = (k, v)" by (cases p)
  have "fst ` set (fold (\<lambda>(k, v). AList.update k v) ps (AList.update k v acc))
          = fst ` set (AList.update k v acc) \<union> fst ` set ps"
    by (rule Cons.IH)
  then show ?case by (simp add: p dom_update)
qed

section \<open>The properties\<close>

text \<open>
  C1. On every input on which createIOSWebviewMessage returns (the accepted options,
  by \<open>createIOSWebviewMessage_accepted\<close> and \<open>createIOSWebviewMessage_rejected\<close>), the buttons
  of the output have the length and the order of the input buttons. A button whose \<^verbatim>\<open>type\<close>
  is \<^verbatim>\<open>"webview"\<close> or whose \<^verbatim>\<open>name\<close> is \<^verbatim>\<open>"cta_url"\<close> is replaced in its place by
  \<^verbatim>\<open>{name: "cta_url", buttonParamsJson}\<close>, where \<^verbatim>\<open>buttonParamsJson\<close> is the JSON text of the
  params mapping built from that button's fields: \<^verbatim>\<open>display_text\<close> is \<^verbatim>\<open>displayText || text\<close>,
  \<^verbatim>\<open>url\<close> is \<^verbatim>\<open>url\<close>, \<^verbatim>\<open>webview_presentation\<close> is \<^verbatim>\<open>webviewPresentation || null\<close>,
  \<^verbatim>\<open>payment_link_preview\<close> is \<^verbatim>\<open>paymentLinkPreview\<close> unless that is \<^verbatim>\<open>undefined\<close> and then
  \<^verbatim>\<open>false\<close>, \<^verbatim>\<open>landing_page_url\<close> is \<^verbatim>\<open>landingPageUrl || url\<close>, and \<^verbatim>\<open>webview_interaction\<close> is
  \<^verbatim>\<open>webviewInteraction\<close> unless that is \<^verbatim>\<open>undefined\<close> and then \<^verbatim>\<open>true\<close>. The text is what
  \<^verbatim>\<open>JSON.stringify\<close> writes for the mapping, and \<^verbatim>\<open>JSON.parse\<close> reads the mapping back from it
  (as JSON represents it). Every other button is in its place unchanged.
\<close>

theorem buttons_normalized_in_place:
  assumes "accepted options" and "buttons_of options = JArr bs"
  shows "\<exists>r ps. createIOSWebviewMessage options = Inr r
           \<and> get_path r [''interactiveMessage'', ''nativeFlowMessage'', ''buttons''] = JArr ps
           \<and> length ps = length bs
           \<and> (\<forall>i < length bs.
                 if get_prop (bs ! i) ''type'' = JStr ''webview''
                    \<or> get_prop (bs ! i) ''name'' = JStr ''cta_url''
                 then \<exists>params t.
                        params =
                          JObj [(''display_text'',
                                   if truthy (get_prop (bs ! i) ''displayText'')
                                   then get_prop (bs ! i) ''displayText''
                                   else get_prop (bs ! i) ''text''),
                                (''url'', get_prop (bs ! i) ''url''),
                                (''webview_presentation'',
                                   if truthy (get_prop (bs ! i) ''webviewPresentation'')
                                   then get_prop (bs ! i) ''webviewPresentation''
                                   else JNull),
                                (''payment_link_preview'',
                                   if get_prop (bs ! i) ''paymentLinkPreview'' = JUndefined
                                   then JBool False
                                   else get_prop (bs ! i) ''paymentLinkPreview''),
                                (''landing_page_url'',
                                   if truthy (get_prop (bs ! i) ''landingPageUrl'')
                                   then get_prop (bs ! i) ''landingPageUrl''
                                   else get_prop (bs ! i) ''url''),
                                (''webview_interaction'',
                                   if get_prop (bs ! i) ''webviewInteraction'' = JUndefined
                                   then JBool True
                                   else get_prop (bs ! i) ''webviewInteraction'')]
                      \<and> JSON_stringify params = JStr t
                      \<and> JSON_parse (JStr t) = Inr (json_image params)
                      \<and> ps ! i = JObj [(''name'', JStr ''cta_url''), (''buttonParamsJson'', JStr t)]
                 else ps ! i = bs ! i)"
    (is "\<exists>r ps. ?P r ps")
proof -
  let ?r = "JObj [(''interactiveMessage'', message_of options bs)]"
  let ?ps = "map normalize_button bs"
  have one: "\<exists>t. JSON_stringify (buttonParams b) = JStr t
               \<and> JSON_parse (JStr t) = Inr (json_image (buttonParams b))
               \<and> normalized b = JObj [(''name'', JStr ''cta_url''), (''buttonParamsJson'', JStr t)]"
    for b
  proof -
    obtain t where t: "JSON_stringify (buttonParams b) = JStr t"
      using stringify_buttonParams by blast
    have "JSON_parse (JStr t) = Inr (json_image (buttonParams b))"
      using JSON_parse_buttonParams[of b] by (simp only: t)
    moreover have "normalized b = JObj [(''name'', JStr ''cta_url''), (''buttonParamsJson'', JStr t)]"
      by (simp only: normalized_def t)
    ultimately show ?thesis using t by blast
  qed
  have all: "\<forall>i < length bs.
              if get_prop (bs ! i) ''type'' = JStr ''webview''
                 \<or> get_prop (bs ! i) ''name'' = JStr ''cta_url''
              then \<exists>params t.
                     params = buttonParams (bs ! i)
                   \<and> JSON_stringify params = JStr t
                   \<and> JSON_parse (JStr t) = Inr (json_image params)
                   \<and> ?ps ! i = JObj [(''name'', JStr ''cta_url''), (''buttonParamsJson'', JStr t)]
              else ?ps ! i = bs ! i"
  proof (intro allI impI)
    fix i assume i: "i < length bs"
    let ?b = "bs ! i"
    have n: "?ps ! i = normalize_button ?b" using i by simp
    show "if get_prop ?b ''type'' = JStr ''webview'' \<or> get_prop ?b ''name'' = JStr ''cta_url''
          then \<exists>params t.
                 params = buttonParams ?b
               \<and> JSON_stringify params = JStr t
               \<and> JSON_parse (JStr t) = Inr (json_image params)
               \<and> ?ps ! i = JObj [(''name'', JStr ''cta_url''), (''buttonParamsJson'', JStr t)]
          else ?ps ! i = ?b"
    proof (cases "is_webview_button ?b")
      case True
      from one[of ?b] obtain t where
        t: "JSON_stringify (buttonParams ?b) = JStr t"
        "JSON_parse (JStr t) = Inr (json_image (buttonParams ?b))"
        "normalized ?b = JObj [(''name'', JStr ''cta_url''), (''buttonParamsJson'', JStr t)]"
        by (elim exE conjE)
      have "?ps ! i = JObj [(''name'', JStr ''cta_url''), (''buttonParamsJson'', JStr t)]"
        using True t(3) by (simp only: n normalize_button_def if_True)
      with t(1,2) have "buttonParams ?b = buttonParams ?b
               \<and> JSON_stringify (buttonParams ?b) = JStr t
               \<and> JSON_parse (JStr t) = Inr (json_image (buttonParams ?b))
               \<and> ?ps ! i = JObj [(''name'', JStr ''cta_url''), (''buttonParamsJson'', JStr t)]"
        by (intro conjI refl)
      then have "\<exists>params t.
                 params = buttonParams ?b
               \<and> JSON_stringify params = JStr t
               \<and> JSON_parse (JStr t) = Inr (json_image params)
               \<and> ?ps ! i = JObj [(''name'', JStr ''cta_url''), (''buttonParamsJson'', JStr t)]"
        by (intro exI)
      then show ?thesis using True by (simp only: is_webview_button_def if_True)
    next
      case False
      then have "?ps ! i = ?b" by (simp only: n normalize_button_def if_False)
      then show ?thesis using False by (simp only: is_webview_button_def if_False)
    qed
  qed
  have l: "length ?ps = length bs" by simp
  have r: "createIOSWebviewMessage options = Inr ?r" by (rule accepted_returns[OF assms])
  have p: "get_path ?r [''interactiveMessage'', ''nativeFlowMessage'', ''buttons''] = JArr ?ps"
    by (rule returned_buttons)
  have "?P ?r ?ps"
    using r p l all[unfolded buttonParams_fields] by (intro conjI)
  then show ?thesis by (intro exI)
qed

text \<open>
  On the three sample buttons: the first and the third are replaced, each by the descriptor
  with the JSON text of its params, and the second is kept. The third button has no
  \<^verbatim>\<open>displayText\<close> and no \<^verbatim>\<open>text\<close>, so its text has no \<^verbatim>\<open>display_text\<close>.
\<close>

theorem buttons_normalized_in_place_witness:
  \<open>accepted sample_options \<and> buttons_of sample_options = JArr sample_buttons
   \<and> (\<exists>r ps. createIOSWebviewMessage sample_options = Inr r
         \<and> get_path r [''interactiveMessage'', ''nativeFlowMessage'', ''buttons''] = JArr ps
         \<and> length ps = 3
         \<and> ps ! 0 =
             JObj [(''name'', JStr ''cta_url''),
                   (''buttonParamsJson'',
                      JStr ''{"display_text":"Go","url":"https://x.com","webview_presentation":null,"payment_link_preview":false,"landing_page_url":"https://x.com","webview_interaction":true}'')]
         \<and> ps ! 1 = JObj [(''name'', JStr ''quick_reply''), (''buttonParamsJson'', JStr ''{}'')]
         \<and> ps ! 2 =
             JObj [(''name'', JStr ''cta_url''),
                   (''buttonParamsJson'',
                      JStr ''{"url":"https://y.org","webview_presentation":null,"payment_link_preview":false,"landing_page_url":"https://y.org","webview_interaction":true}'')])\<close>
proof -
  from buttons_normalized_in_place[OF sample_accepted]
  obtain r ps where r: "createIOSWebviewMessage sample_options = Inr r"
    and p: "get_path r [''interactiveMessage'', ''nativeFlowMessage'', ''buttons''] = JArr ps"
    and l: "length ps = length sample_buttons"
    and a: "\<forall>i < length sample_buttons.
              if get_prop (sample_buttons ! i) ''type'' = JStr ''webview''
                 \<or> get_prop (sample_buttons ! i) ''name'' = JStr ''cta_url''
              then \<exists>params t.
                     params =
                       JObj [(''display_text'',
                                if truthy (get_prop (sample_buttons ! i) ''displayText'')
                                then get_prop (sample_buttons ! i) ''displayText''
                                else get_prop (sample_buttons ! i) ''text''),
                             (''url'', get_prop (sample_buttons ! i) ''url''),
                             (''webview_presentation'',
                                if truthy (get_prop (sample_buttons ! i) ''webviewPresentation'')
                                then get_prop (sample_buttons ! i) ''webviewPresentation''
                                else JNull),
                             (''payment_link_preview'',
                                if get_prop (sample_buttons ! i) ''paymentLinkPreview'' = JUndefined
                                then JBool False
                                else get_prop (sample_buttons ! i) ''paymentLinkPreview''),
                             (''landing_page_url'',
                                if truthy (get_prop (sample_buttons ! i) ''landingPageUrl'')
                                then get_prop (sample_buttons ! i) ''landingPageUrl''
                                else get_prop (sample_buttons ! i) ''url''),
                             (''webview_interaction'',
                                if get_prop (sample_buttons ! i) ''webviewInteraction'' = JUndefined
                                then JBool True
                                else get_prop (sample_buttons ! i) ''webviewInteraction'')]
                   \<and> JSON_stringify params = JStr t
                   \<and> JSON_parse (JStr t) = Inr (json_image params)
                   \<and> ps ! i = JObj [(''name'', JStr ''cta_url''), (''buttonParamsJson'', JStr t)]
              else ps ! i = sample_buttons ! i"
    by (elim exE conjE)
  have l3: "length sample_buttons = 3" by (simp add: sample_buttons_def)
  have b0: \<open>ps ! 0 =
             JObj [(''name'', JStr ''cta_url''),
                   (''buttonParamsJson'',
                      JStr ''{"display_text":"Go","url":"https://x.com","webview_presentation":null,"payment_link_preview":false,"landing_page_url":"https://x.com","webview_interaction":true}'')]\<close>
    using a[rule_format, of 0]
    by (auto simp: sample_buttons_def sample_button_def JSON_stringify_def QuoteJSONString_def
          quote_char_def member_text_def)
  have b1: "ps ! 1 = JObj [(''name'', JStr ''quick_reply''), (''buttonParamsJson'', JStr ''{}'')]"
    using a[rule_format, of 1] by (simp add: sample_buttons_def)
  have b2: \<open>ps ! 2 =
             JObj [(''name'', JStr ''cta_url''),
                   (''buttonParamsJson'',
                      JStr ''{"url":"https://y.org","webview_presentation":null,"payment_link_preview":false,"landing_page_url":"https://y.org","webview_interaction":true}'')]\<close>
    using a[rule_format, of 2]
    by (auto simp: sample_buttons_def JSON_stringify_def QuoteJSONString_def
          quote_char_def member_text_def)
  have "createIOSWebviewMessage sample_options = Inr r
         \<and> get_path r [''interactiveMessage'', ''nativeFlowMessage'', ''buttons''] = JArr ps
         \<and> length ps = 3" using r p l l3 by simp
  with b0 b1 b2 sample_accepted show ?thesis by (intro conjI exI) (elim conjE, assumption)+
qed

text \<open>
  C2. For a button of type \<^verbatim>\<open>webview\<close> the normalized button, at the same position of the
  output, has the name \<^verbatim>\<open>cta_url\<close>, and \<^verbatim>\<open>JSON.parse\<close> of its \<^verbatim>\<open>buttonParamsJson\<close> succeeds
  with a mapping whose \<^verbatim>\<open>url\<close> equals the button's \<^verbatim>\<open>url\<close>, for every \<^verbatim>\<open>url\<close> that is a string,
  which is the type the function documents for it; a button with no \<^verbatim>\<open>url\<close> gives a mapping
  with no \<^verbatim>\<open>url\<close>. In general the mapping holds the \<^verbatim>\<open>url\<close> as JSON represents it, which for a
  string is the string itself.
\<close>

theorem url_round_trip:
  assumes "accepted options" and "buttons_of options = JArr bs"
    and "i < length bs" and "get_prop (bs ! i) ''type'' = JStr ''webview''"
  shows "\<exists>r ps params.
           createIOSWebviewMessage options = Inr r
         \<and> get_path r [''interactiveMessage'', ''nativeFlowMessage'', ''buttons''] = JArr ps
         \<and> get_prop (ps ! i) ''name'' = JStr ''cta_url''
         \<and> JSON_parse (get_prop (ps ! i) ''buttonParamsJson'') = Inr params
         \<and> get_prop params ''url'' = json_image (get_prop (bs ! i) ''url'')
         \<and> (\<forall>s. get_prop (bs ! i) ''url'' = JStr s \<longrightarrow> get_prop params ''url'' = JStr s)
         \<and> (get_prop (bs ! i) ''url'' = JUndefined \<longrightarrow> get_prop params ''url'' = JUndefined)"
proof -
  let ?b = "bs ! i"
  have w: "is_webview_button ?b" using assms(4) by (simp add: is_webview_button_def)
  then have n: "map normalize_button bs ! i = normalized ?b"
    using assms(3) by (simp add: normalize_button_def)
  have u: "get_prop (json_image (buttonParams ?b)) ''url'' = json_image (get_prop ?b ''url'')"
    by (simp add: get_prop_buttonParams_image) (simp add: buttonParams_def)
  have "get_prop (normalized ?b) ''name'' = JStr ''cta_url''" by (simp add: normalized_def)
  moreover have "JSON_parse (get_prop (normalized ?b) ''buttonParamsJson'')
                   = Inr (json_image (buttonParams ?b))"
    by (simp add: get_prop_normalized_json JSON_parse_buttonParams)
  ultimately show ?thesis
    using accepted_returns[OF assms(1,2)] returned_buttons[of options bs] n u by auto
qed

text \<open>
  On the sample options the \<^verbatim>\<open>url\<close> of the first button parses back as it was given.
\<close>

theorem url_round_trip_witness:
  "accepted sample_options \<and> buttons_of sample_options = JArr sample_buttons
   \<and> 0 < length sample_buttons \<and> get_prop (sample_buttons ! 0) ''type'' = JStr ''webview''
   \<and> (\<exists>r ps params.
         createIOSWebviewMessage sample_options = Inr r
       \<and> get_path r [''interactiveMessage'', ''nativeFlowMessage'', ''buttons''] = JArr ps
       \<and> get_prop (ps ! 0) ''name'' = JStr ''cta_url''
       \<and> JSON_parse (get_prop (ps ! 0) ''buttonParamsJson'') = Inr params
       \<and> get_prop params ''url'' = JStr ''https://x.com'')"
proof -
  have a: "0 < length sample_buttons" by (simp add: sample_buttons_def)
  have b: "get_prop (sample_buttons ! 0) ''type'' = JStr ''webview''"
    by (simp add: sample_buttons_def sample_button_def)
  have c: "get_prop (sample_buttons ! 0) ''url'' = JStr ''https://x.com''"
    by (simp add: sample_buttons_def sample_button_def)
  show ?thesis
    using sample_accepted a b url_round_trip[OF sample_accepted a b] c by auto
qed

text \<open>
  C3. In the params mapping that normalization serializes into \<^verbatim>\<open>buttonParamsJson\<close>:
  \<^verbatim>\<open>payment_link_preview\<close> is the button's \<^verbatim>\<open>paymentLinkPreview\<close> whenever that is defined (an
  explicit \<^verbatim>\<open>false\<close> or \<^verbatim>\<open>true\<close> is kept) and the default \<^verbatim>\<open>false\<close> only when it is
  \<^verbatim>\<open>undefined\<close>; \<^verbatim>\<open>webview_interaction\<close> is the button's \<^verbatim>\<open>webviewInteraction\<close> whenever
  that is defined and the default \<^verbatim>\<open>true\<close> only when it is \<^verbatim>\<open>undefined\<close>;
  \<^verbatim>\<open>webview_presentation\<close> defaults to \<^verbatim>\<open>null\<close>; \<^verbatim>\<open>landing_page_url\<close> defaults to the
  button's \<^verbatim>\<open>url\<close> when no \<^verbatim>\<open>landingPageUrl\<close> is given. The first two conjuncts tie the
  mapping to the code: the button that \<^verbatim>\<open>buttons.map\<close> returns carries the JSON text of
  exactly this mapping.
\<close>

theorem params_defaults:
  assumes "\<not> nullish button" and "is_webview_button button"
  shows "process_button button index =
           Inr (JObj [(''name'', JStr ''cta_url''),
                      (''buttonParamsJson'', JSON_stringify (buttonParams button))])
       \<and> (\<exists>t. JSON_stringify (buttonParams button) = JStr t)
       \<and> get_prop (buttonParams button) ''payment_link_preview'' =
           (if get_prop button ''paymentLinkPreview'' = JUndefined then JBool False
            else get_prop button ''paymentLinkPreview'')
       \<and> get_prop (buttonParams button) ''webview_interaction'' =
           (if get_prop button ''webviewInteraction'' = JUndefined then JBool True
            else get_prop button ''webviewInteraction'')
       \<and> (get_prop button ''webviewPresentation'' = JUndefined \<longrightarrow>
            get_prop (buttonParams button) ''webview_presentation'' = JNull)
       \<and> (get_prop button ''landingPageUrl'' = JUndefined \<longrightarrow>
            get_prop (buttonParams button) ''landing_page_url'' = get_prop button ''url'')"
  using assms
  by (simp add: process_button_def buttonParams_def JSON_stringify_def js_or_def)

text \<open>
  On the sample button the explicit \<^verbatim>\<open>false\<close> is kept and the three absent fields take
  their defaults.
\<close>

theorem params_defaults_witness:
  "\<not> nullish sample_button \<and> is_webview_button sample_button
   \<and> get_prop (buttonParams sample_button) ''payment_link_preview'' = JBool False
   \<and> get_prop sample_button ''paymentLinkPreview'' = JBool False
   \<and> get_prop (buttonParams sample_button) ''webview_interaction'' = JBool True
   \<and> get_prop (buttonParams sample_button) ''webview_presentation'' = JNull
   \<and> get_prop (buttonParams sample_button) ''landing_page_url'' = JStr ''https://x.com''"
proof -
  have a: "\<not> nullish sample_button" by (simp add: sample_button_def nullish_def)
  have b: "is_webview_button sample_button" by (simp add: sample_button_def is_webview_button_def)
  have c: "get_prop sample_button ''paymentLinkPreview'' = JBool False"
    "get_prop sample_button ''webviewInteraction'' = JUndefined"
    "get_prop sample_button ''webviewPresentation'' = JUndefined"
    "get_prop sample_button ''landingPageUrl'' = JUndefined"
    "get_prop sample_button ''url'' = JStr ''https://x.com''"
    by (simp_all add: sample_button_def)
  show ?thesis using a b c params_defaults[OF a b, of 0] by simp
qed

text \<open>
  C4. The tap target list that \<^verbatim>\<open>messageParamsJson\<close> holds (it is the text of
  \<open>messageParams tl\<close>, and parses back to it) has one entry for each normalized button whose
  name is \<^verbatim>\<open>cta_url\<close>, in their order: the entry at \<open>j\<close> has \<^verbatim>\<open>url_type\<close> \<^verbatim>\<open>"STATIC"\<close>,
  \<^verbatim>\<open>tap_target_format\<close> 1 and \<^verbatim>\<open>button_index\<close> \<open>j\<close>, and its \<^verbatim>\<open>canonical_url\<close> is taken from
  the params that \<^verbatim>\<open>JSON.parse\<close> returns for the button's \<^verbatim>\<open>buttonParamsJson\<close>: their \<^verbatim>\<open>url\<close> if
  present, else their \<^verbatim>\<open>landing_page_url\<close>, else the empty string. Present is what the code
  tests with \<^verbatim>\<open>||\<close>: the value is truthy, for a string not empty.
\<close>

theorem tap_targets_follow_url_buttons:
  assumes "accepted options" and "buttons_of options = JArr bs"
  shows "\<exists>r ps tl.
           createIOSWebviewMessage options = Inr r
         \<and> get_path r [''interactiveMessage'', ''nativeFlowMessage'', ''buttons''] = JArr ps
         \<and> get_path r [''interactiveMessage'', ''nativeFlowMessage'', ''messageParamsJson'']
             = JSON_stringify (messageParams tl)
         \<and> JSON_parse (JSON_stringify (messageParams tl)) = Inr (messageParams tl)
         \<and> get_prop (messageParams tl) ''tap_target_list'' = JArr tl
         \<and> length tl = length (filter (\<lambda>p. get_prop p ''name'' = JStr ''cta_url'') ps)
         \<and> (\<forall>j < length tl.
               \<exists>params.
                 JSON_parse (get_prop (filter (\<lambda>p. get_prop p ''name'' = JStr ''cta_url'') ps ! j)
                               ''buttonParamsJson'') = Inr params
               \<and> tl ! j =
                   JObj [(''canonical_url'',
                            if truthy (get_prop params ''url'') then get_prop params ''url''
                            else if truthy (get_prop params ''landing_page_url'')
                            then get_prop params ''landing_page_url''
                            else JStr []),
                         (''url_type'', JStr ''STATIC''),
                         (''button_index'', JNum (int j)),
                         (''tap_target_format'', JNum 1)])"
proof -
  let ?ps = "map normalize_button bs"
  let ?ub = "filter (\<lambda>p. get_prop p ''name'' = JStr ''cta_url'') ?ps"
  let ?fb = "filter is_webview_button bs"
  let ?tl = "tap_targets bs"
  have ub: "?ub = map normalized ?fb" by (rule url_buttons_filter)
  have len: "length ?tl = length ?ub" by (simp add: ub length_tap_targets)
  have each: "\<forall>j < length ?tl.
               \<exists>params.
                 JSON_parse (get_prop (?ub ! j) ''buttonParamsJson'') = Inr params
               \<and> ?tl ! j =
                   JObj [(''canonical_url'',
                            if truthy (get_prop params ''url'') then get_prop params ''url''
                            else if truthy (get_prop params ''landing_page_url'')
                            then get_prop params ''landing_page_url''
                            else JStr []),
                         (''url_type'', JStr ''STATIC''),
                         (''button_index'', JNum (int j)),
                         (''tap_target_format'', JNum 1)]"
  proof (intro allI impI)
    fix j assume "j < length ?tl"
    then have j: "j < length ?fb" by (simp add: length_tap_targets)
    let ?b = "?fb ! j"
    have "?ub ! j = normalized ?b" using j by (simp add: ub)
    then have "JSON_parse (get_prop (?ub ! j) ''buttonParamsJson'') = Inr (json_image (buttonParams ?b))"
      by (simp add: get_prop_normalized_json JSON_parse_buttonParams)
    moreover have "?tl ! j = tap_target_of (canonical_url (json_image (buttonParams ?b))) j"
      using j by (rule nth_tap_targets)
    ultimately show "\<exists>params.
                 JSON_parse (get_prop (?ub ! j) ''buttonParamsJson'') = Inr params
               \<and> ?tl ! j =
                   JObj [(''canonical_url'',
                            if truthy (get_prop params ''url'') then get_prop params ''url''
                            else if truthy (get_prop params ''landing_page_url'')
                            then get_prop params ''landing_page_url''
                            else JStr []),
                         (''url_type'', JStr ''STATIC''),
                         (''button_index'', JNum (int j)),
                         (''tap_target_format'', JNum 1)]"
      by (simp add: tap_target_of_def canonical_url_def js_or_def)
  qed
  have tlp: "get_prop (messageParams ?tl) ''tap_target_list'' = JArr ?tl"
    by (simp add: messageParams_def)
  show ?thesis
    using accepted_returns[OF assms] returned_buttons[of options bs]
      returned_messageParamsJson[of options bs] JSON_parse_messageParams[of bs] tlp len each
    by blast
qed

text \<open>
  On the sample options: two tap targets, for the first and the third button.
\<close>

theorem tap_targets_follow_url_buttons_witness:
  "accepted sample_options \<and> buttons_of sample_options = JArr sample_buttons
   \<and> (\<exists>r tl.
         createIOSWebviewMessage sample_options = Inr r
       \<and> get_path r [''interactiveMessage'', ''nativeFlowMessage'', ''messageParamsJson'']
           = JSON_stringify (messageParams tl)
       \<and> JSON_parse (JSON_stringify (messageParams tl)) = Inr (messageParams tl)
       \<and> length tl = 2
       \<and> tl ! 0 = JObj [(''canonical_url'', JStr ''https://x.com''),
                        (''url_type'', JStr ''STATIC''),
                        (''button_index'', JNum 0),
                        (''tap_target_format'', JNum 1)]
       \<and> tl ! 1 = JObj [(''canonical_url'', JStr ''https://y.org''),
                        (''url_type'', JStr ''STATIC''),
                        (''button_index'', JNum 1),
                        (''tap_target_format'', JNum 1)])"
proof -
  let ?cta = "\<lambda>p. get_prop p ''name'' = JStr ''cta_url''"
  let ?third = "JObj [(''name'', JStr ''cta_url''), (''url'', JStr ''https://y.org'')]"
  from tap_targets_follow_url_buttons[OF sample_accepted]
  obtain r ps tl where r: "createIOSWebviewMessage sample_options = Inr r"
    and p: "get_path r [''interactiveMessage'', ''nativeFlowMessage'', ''buttons''] = JArr ps"
    and m: "get_path r [''interactiveMessage'', ''nativeFlowMessage'', ''messageParamsJson'']
             = JSON_stringify (messageParams tl)"
    and rt: "JSON_parse (JSON_stringify (messageParams tl)) = Inr (messageParams tl)"
    and l: "length tl = length (filter ?cta ps)"
    and e: "\<forall>j < length tl.
               \<exists>params.
                 JSON_parse (get_prop (filter ?cta ps ! j) ''buttonParamsJson'') = Inr params
               \<and> tl ! j =
                   JObj [(''canonical_url'',
                            if truthy (get_prop params ''url'') then get_prop params ''url''
                            else if truthy (get_prop params ''landing_page_url'')
                            then get_prop params ''landing_page_url''
                            else JStr []),
                         (''url_type'', JStr ''STATIC''),
                         (''button_index'', JNum (int j)),
                         (''tap_target_format'', JNum 1)]"
    by blast
  have "r = JObj [(''interactiveMessage'', message_of sample_options sample_buttons)]"
    using r accepted_returns[OF sample_accepted] by simp
  then have ps: "ps = map normalize_button sample_buttons"
    using p returned_buttons[of sample_options sample_buttons] by simp
  have ub: "filter ?cta ps = [normalized sample_button, normalized ?third]"
    by (simp add: ps url_buttons_filter)
       (simp add: sample_buttons_def sample_button_def is_webview_button_def)
  have l2: "length tl = 2" using l by (simp add: ub)
  have u0: "get_prop (json_image (buttonParams sample_button)) ''url'' = JStr ''https://x.com''"
    by (simp add: get_prop_buttonParams_image) (simp add: buttonParams_def sample_button_def)
  have u1: "get_prop (json_image (buttonParams ?third)) ''url'' = JStr ''https://y.org''"
    by (simp add: get_prop_buttonParams_image) (simp add: buttonParams_def)
  have t0: "tl ! 0 = JObj [(''canonical_url'', JStr ''https://x.com''),
                        (''url_type'', JStr ''STATIC''),
                        (''button_index'', JNum 0),
                        (''tap_target_format'', JNum 1)]"
    using e[rule_format, of 0] l2 u0
    by (auto simp: ub get_prop_normalized_json JSON_parse_buttonParams)
  have t1: "tl ! 1 = JObj [(''canonical_url'', JStr ''https://y.org''),
                        (''url_type'', JStr ''STATIC''),
                        (''button_index'', JNum 1),
                        (''tap_target_format'', JNum 1)]"
    using e[rule_format, of 1] l2 u1
    by (auto simp: ub get_prop_normalized_json JSON_parse_buttonParams)
  show ?thesis using sample_accepted r m rt l2 t0 t1 by blast
qed

text \<open>
  C5. The object that is serialized into \<^verbatim>\<open>messageParamsJson\<close>, which is also what
  \<^verbatim>\<open>JSON.parse\<close> makes of \<^verbatim>\<open>messageParamsJson\<close>, has the \<^verbatim>\<open>bottom_sheet\<close>
  \<^verbatim>\<open>{in_thread_buttons_limit: 3, divider_indices: []}\<close>; its \<^verbatim>\<open>tap_target_configuration\<close> is the
  first element of its \<^verbatim>\<open>tap_target_list\<close> when that list is not empty and the empty
  mapping when it is.
\<close>

theorem message_params_shape:
  assumes "accepted options" and "buttons_of options = JArr bs"
  shows "\<exists>r. createIOSWebviewMessage options = Inr r
         \<and> get_path r [''interactiveMessage'', ''nativeFlowMessage'', ''messageParamsJson'']
             = JSON_stringify
                 (JObj [(''bottom_sheet'',
                           JObj [(''in_thread_buttons_limit'', JNum 3),
                                 (''divider_indices'', JArr [])]),
                        (''tap_target_configuration'',
                           if tap_targets bs = [] then JObj [] else tap_targets bs ! 0),
                        (''tap_target_list'', JArr (tap_targets bs))])
         \<and> JSON_parse
               (get_path r [''interactiveMessage'', ''nativeFlowMessage'', ''messageParamsJson''])
             = Inr (JObj [(''bottom_sheet'',
                             JObj [(''in_thread_buttons_limit'', JNum 3),
                                   (''divider_indices'', JArr [])]),
                          (''tap_target_configuration'',
                             if tap_targets bs = [] then JObj [] else tap_targets bs ! 0),
                          (''tap_target_list'', JArr (tap_targets bs))])"
proof -
  have "messageParams (tap_targets bs) =
          JObj [(''bottom_sheet'',
                   JObj [(''in_thread_buttons_limit'', JNum 3), (''divider_indices'', JArr [])]),
                (''tap_target_configuration'',
                   if tap_targets bs = [] then JObj [] else tap_targets bs ! 0),
                (''tap_target_list'', JArr (tap_targets bs))]"
    by (simp add: messageParams_def hd_conv_nth)
  then show ?thesis
    using accepted_returns[OF assms] returned_messageParamsJson[of options bs]
      JSON_parse_messageParams[of bs]
    by simp
qed

text \<open>
  On the sample options the configuration is the first of two tap targets; on the
  options \<^verbatim>\<open>{}\<close> it is the empty mapping.
\<close>

theorem message_params_shape_witness:
  "accepted sample_options \<and> buttons_of sample_options = JArr sample_buttons
   \<and> (\<exists>r. createIOSWebviewMessage sample_options = Inr r
         \<and> JSON_parse
               (get_path r [''interactiveMessage'', ''nativeFlowMessage'', ''messageParamsJson''])
             = Inr (JObj [(''bottom_sheet'',
                             JObj [(''in_thread_buttons_limit'', JNum 3),
                                   (''divider_indices'', JArr [])]),
                          (''tap_target_configuration'', tap_target_of (JStr ''https://x.com'') 0),
                          (''tap_target_list'',
                             JArr [tap_target_of (JStr ''https://x.com'') 0,
                                   tap_target_of (JStr ''https://y.org'') 1])]))
   \<and> accepted (JObj []) \<and> buttons_of (JObj []) = JArr []
   \<and> (\<exists>r. createIOSWebviewMessage (JObj []) = Inr r
         \<and> JSON_parse
               (get_path r [''interactiveMessage'', ''nativeFlowMessage'', ''messageParamsJson''])
             = Inr (JObj [(''bottom_sheet'',
                             JObj [(''in_thread_buttons_limit'', JNum 3),
                                   (''divider_indices'', JArr [])]),
                          (''tap_target_configuration'', JObj []),
                          (''tap_target_list'', JArr [])]))"
proof -
  have e: "accepted (JObj [])" "buttons_of (JObj []) = JArr []"
    by (simp_all add: accepted_def buttons_of_def with_default_def nullish_def)
  have t: "tap_targets [] = []" by (simp add: tap_targets_def)
  show ?thesis
    using sample_accepted e message_params_shape[OF sample_accepted] message_params_shape[OF e]
    by (auto simp: tap_targets_sample t)
qed

text \<open>
  C6, as the code has it. The claim, that a button named \<^verbatim>\<open>cta_url\<close> whose pre-supplied
  \<^verbatim>\<open>buttonParamsJson\<close> is no valid JSON gets a tap target with the empty \<^verbatim>\<open>canonical_url\<close>,
  fails when the button has a \<^verbatim>\<open>url\<close>: the pre-supplied text is never parsed, the button is
  normalized again from its fields, and the tap target has that \<^verbatim>\<open>url\<close>.
\<close>

theorem malformed_json_button_keeps_its_url:
  "get_prop presupplied_button ''name'' = JStr ''cta_url''
   \<and> JSON_parse (get_prop presupplied_button ''buttonParamsJson'') = Inl SyntaxError
   \<and> createIOSWebviewMessage (JObj [(''buttons'', JArr [presupplied_button])]) =
       Inr (JObj [(''interactiveMessage'',
         JObj [(''body'', JObj [(''text'', JUndefined)]),
               (''nativeFlowMessage'',
                  JObj [(''buttons'',
                           JArr [JObj [(''name'', JStr ''cta_url''),
                                       (''buttonParamsJson'',
                                          JSON_stringify (buttonParams presupplied_button))]]),
                        (''messageParamsJson'',
                           JSON_stringify
                             (JObj [(''bottom_sheet'',
                                       JObj [(''in_thread_buttons_limit'', JNum 3),
                                             (''divider_indices'', JArr [])]),
                                    (''tap_target_configuration'',
                                       JObj [(''canonical_url'', JStr ''https://x.com''),
                                             (''url_type'', JStr ''STATIC''),
                                             (''button_index'', JNum 0),
                                             (''tap_target_format'', JNum 1)]),
                                    (''tap_target_list'',
                                       JArr [JObj [(''canonical_url'', JStr ''https://x.com''),
                                                   (''url_type'', JStr ''STATIC''),
                                                   (''button_index'', JNum 0),
                                                   (''tap_target_format'', JNum 1)]])]))]),
               (''contextInfo'',
                  JObj [(''dataSharingContext'', JObj [(''showMmDisclosure'', JBool False)])])])])"
proof -
  let ?o = "JObj [(''buttons'', JArr [presupplied_button])]"
  have a: "accepted ?o" "buttons_of ?o = JArr [presupplied_button]"
    by (simp_all add: accepted_def buttons_of_def with_default_def nullish_def
          presupplied_button_def)
  have w: "is_webview_button presupplied_button"
    by (simp add: is_webview_button_def presupplied_button_def)
  have c: "canonical_url (json_image (buttonParams presupplied_button)) = JStr ''https://x.com''"
    by (simp add: canonical_url_image canonical_url_raw) (simp add: presupplied_button_def)
  have tl: "tap_targets [presupplied_button] = [tap_target_of (JStr ''https://x.com'') 0]"
    using w by (simp add: tap_targets_def c)
  have m: "message_of ?o [presupplied_button] =
         JObj [(''body'', JObj [(''text'', JUndefined)]),
               (''nativeFlowMessage'',
                  JObj [(''buttons'',
                           JArr [JObj [(''name'', JStr ''cta_url''),
                                       (''buttonParamsJson'',
                                          JSON_stringify (buttonParams presupplied_button))]]),
                        (''messageParamsJson'',
                           JSON_stringify
                             (messageParams [tap_target_of (JStr ''https://x.com'') 0]))]),
               (''contextInfo'',
                  JObj [(''dataSharingContext'', JObj [(''showMmDisclosure'', JBool False)])])]"
    using w
    by (simp add: message_of_def tl add_footer_def add_header_def base_message_def
          normalize_button_def normalized_def with_default_def object_spread_def spread_props_def)
  have mp: "messageParams [tap_target_of (JStr ''https://x.com'') 0] =
              JObj [(''bottom_sheet'',
                       JObj [(''in_thread_buttons_limit'', JNum 3),
                             (''divider_indices'', JArr [])]),
                    (''tap_target_configuration'',
                       JObj [(''canonical_url'', JStr ''https://x.com''),
                             (''url_type'', JStr ''STATIC''),
                             (''button_index'', JNum 0),
                             (''tap_target_format'', JNum 1)]),
                    (''tap_target_list'',
                       JArr [JObj [(''canonical_url'', JStr ''https://x.com''),
                                   (''url_type'', JStr ''STATIC''),
                                   (''button_index'', JNum 0),
                                   (''tap_target_format'', JNum 1)]])]"
    by (simp add: messageParams_def tap_target_of_def)
  have n: "get_prop presupplied_button ''name'' = JStr ''cta_url''"
    "JSON_parse (get_prop presupplied_button ''buttonParamsJson'') = Inl SyntaxError"
    by (simp_all add: presupplied_button_def parse_not_json)
  show ?thesis
    using accepted_returns[OF a] n by (simp only: m mp)
qed

text \<open>
  C6, amended. Whatever \<^verbatim>\<open>buttonParamsJson\<close> the buttons bring, valid JSON or not, the
  function does not throw on accepted options, and the tap target of the \<open>j\<close>-th button
  that is normalized (its type is \<^verbatim>\<open>webview\<close> or its name is \<^verbatim>\<open>cta_url\<close>) has as
  \<^verbatim>\<open>canonical_url\<close> the button's \<^verbatim>\<open>url\<close> if truthy, else its \<^verbatim>\<open>landingPageUrl\<close> if truthy, else
  the empty string (each as JSON gives it back). The handler itself does what the claim
  says, wherever the body of the \<^verbatim>\<open>try\<close> throws: the tap target then has the empty string.
\<close>

theorem canonical_url_from_raw_fields:
  assumes "accepted options" and "buttons_of options = JArr bs"
  shows "\<exists>r tl.
           createIOSWebviewMessage options = Inr r
         \<and> get_path r [''interactiveMessage'', ''nativeFlowMessage'', ''messageParamsJson'']
             = JSON_stringify (messageParams tl)
         \<and> length tl = length (filter is_webview_button bs)
         \<and> (\<forall>j < length tl.
               get_prop (tl ! j) ''canonical_url'' =
                 (if truthy (get_prop (filter is_webview_button bs ! j) ''url'')
                  then json_image (get_prop (filter is_webview_button bs ! j) ''url'')
                  else if truthy (get_prop (filter is_webview_button bs ! j) ''landingPageUrl'')
                  then json_image (get_prop (filter is_webview_button bs ! j) ''landingPageUrl'')
                  else JStr []))
         \<and> (\<forall>button index e.
               try_parse_urls button = Inl e \<longrightarrow> is_exception e \<longrightarrow>
               tapTarget button index = Inr (tap_target_of (JStr []) index))"
proof -
  have each: "\<forall>j < length (tap_targets bs).
               get_prop (tap_targets bs ! j) ''canonical_url'' =
                 (if truthy (get_prop (filter is_webview_button bs ! j) ''url'')
                  then json_image (get_prop (filter is_webview_button bs ! j) ''url'')
                  else if truthy (get_prop (filter is_webview_button bs ! j) ''landingPageUrl'')
                  then json_image (get_prop (filter is_webview_button bs ! j) ''landingPageUrl'')
                  else JStr [])"
    by (simp add: length_tap_targets nth_tap_targets canonical_url_image canonical_url_raw
          tap_target_of_def)
  have handler: "\<forall>button index e.
               try_parse_urls button = Inl e \<longrightarrow> is_exception e \<longrightarrow>
               tapTarget button index = Inr (tap_target_of (JStr []) index)"
    by (simp add: tapTarget_def)
  show ?thesis
    using accepted_returns[OF assms] returned_messageParamsJson[of options bs]
      length_tap_targets[of bs] each handler
    by blast
qed

text \<open>
  On two buttons with malformed \<^verbatim>\<open>buttonParamsJson\<close>: the one with a \<^verbatim>\<open>url\<close> keeps it, the
  one without gets the empty string.
\<close>

theorem canonical_url_from_raw_fields_witness:
  "accepted (JObj [(''buttons'', JArr malformed_buttons)])
   \<and> buttons_of (JObj [(''buttons'', JArr malformed_buttons)]) = JArr malformed_buttons
   \<and> JSON_parse (get_prop (malformed_buttons ! 0) ''buttonParamsJson'') = Inl SyntaxError
   \<and> JSON_parse (get_prop (malformed_buttons ! 1) ''buttonParamsJson'') = Inl SyntaxError
   \<and> (\<exists>r tl.
         createIOSWebviewMessage (JObj [(''buttons'', JArr malformed_buttons)]) = Inr r
       \<and> get_path r [''interactiveMessage'', ''nativeFlowMessage'', ''messageParamsJson'']
           = JSON_stringify (messageParams tl)
       \<and> length tl = 2
       \<and> get_prop (tl ! 0) ''canonical_url'' = JStr ''https://x.com''
       \<and> get_prop (tl ! 1) ''canonical_url'' = JStr [])"
proof -
  let ?o = "JObj [(''buttons'', JArr malformed_buttons)]"
  have f: "filter is_webview_button malformed_buttons = malformed_buttons"
    by (simp add: malformed_buttons_def presupplied_button_def is_webview_button_def)
  from canonical_url_from_raw_fields[OF malformed_accepted]
  obtain r tl where r: "createIOSWebviewMessage ?o = Inr r"
    and m: "get_path r [''interactiveMessage'', ''nativeFlowMessage'', ''messageParamsJson'']
             = JSON_stringify (messageParams tl)"
    and l: "length tl = length (filter is_webview_button malformed_buttons)"
    and e: "\<forall>j < length tl.
               get_prop (tl ! j) ''canonical_url'' =
                 (if truthy (get_prop (filter is_webview_button malformed_buttons ! j) ''url'')
                  then json_image (get_prop (filter is_webview_button malformed_buttons ! j) ''url'')
                  else if truthy (get_prop (filter is_webview_button malformed_buttons ! j) ''landingPageUrl'')
                  then json_image (get_prop (filter is_webview_button malformed_buttons ! j) ''landingPageUrl'')
                  else JStr [])"
    by blast
  have l2: "length tl = 2" using l by (simp add: f) (simp add: malformed_buttons_def)
  have c0: "get_prop (tl ! 0) ''canonical_url'' = JStr ''https://x.com''"
    using e[rule_format, of 0] l2
    by (simp add: f) (simp add: malformed_buttons_def presupplied_button_def)
  have c1: "get_prop (tl ! 1) ''canonical_url'' = JStr []"
    using e[rule_format, of 1] l2
    by (simp add: f) (simp add: malformed_buttons_def presupplied_button_def)
  have p: "JSON_parse (get_prop (malformed_buttons ! 0) ''buttonParamsJson'') = Inl SyntaxError"
    "JSON_parse (get_prop (malformed_buttons ! 1) ''buttonParamsJson'') = Inl SyntaxError"
    by (simp_all add: malformed_buttons_def presupplied_button_def parse_not_json)
  show ?thesis using malformed_accepted p r m l2 c0 c1 by blast
qed

text \<open>
  C7. The output has a \<^verbatim>\<open>header\<close> key exactly when one of \<^verbatim>\<open>imageMessage\<close>, \<^verbatim>\<open>title\<close>,
  \<^verbatim>\<open>subtitle\<close> is truthy, and a \<^verbatim>\<open>footer\<close> key exactly when \<^verbatim>\<open>footerText\<close> is truthy, the footer
  being \<^verbatim>\<open>{text: footerText}\<close>. The header has \<^verbatim>\<open>hasMediaAttachment\<close>, which is
  \<^verbatim>\<open>!!imageMessage\<close>, followed by those of \<^verbatim>\<open>imageMessage\<close>, \<^verbatim>\<open>title\<close>, \<^verbatim>\<open>subtitle\<close> that are
  truthy and by nothing else.
\<close>

theorem header_and_footer:
  assumes "accepted options"
  shows "\<exists>m. createIOSWebviewMessage options = Inr (JObj [(''interactiveMessage'', JObj m)])
         \<and> (''header'' \<in> fst ` set m \<longleftrightarrow>
              truthy (get_prop options ''imageMessage'') \<or> truthy (get_prop options ''title'')
              \<or> truthy (get_prop options ''subtitle''))
         \<and> (''footer'' \<in> fst ` set m \<longleftrightarrow> truthy (get_prop options ''footerText''))
         \<and> (truthy (get_prop options ''footerText'') \<longrightarrow>
              map_of m ''footer'' = Some (JObj [(''text'', get_prop options ''footerText'')]))
         \<and> (truthy (get_prop options ''imageMessage'') \<or> truthy (get_prop options ''title'')
              \<or> truthy (get_prop options ''subtitle'') \<longrightarrow>
              map_of m ''header'' =
                Some (JObj ((''hasMediaAttachment'', JBool (truthy (get_prop options ''imageMessage'')))
                            # filter (\<lambda>p. truthy (snd p))
                                [(''imageMessage'', get_prop options ''imageMessage''),
                                 (''title'', get_prop options ''title''),
                                 (''subtitle'', get_prop options ''subtitle'')])))"
proof -
  obtain bs where bs: "buttons_of options = JArr bs"
    using accepted_has_buttons[OF assms] by blast
  let ?base = "base_message (get_prop options ''bodyText'') (map normalize_button bs)
             (JSON_stringify (messageParams (tap_targets bs)))
             (with_default (get_prop options ''contextInfo'') (JObj []))"
  let ?h = "add_header (get_prop options ''imageMessage'') (get_prop options ''title'')
              (get_prop options ''subtitle'') ?base"
  let ?m = "add_footer (get_prop options ''footerText'') ?h"
  have keys_base: "fst ` set ?base = {''body'', ''nativeFlowMessage'', ''contextInfo''}"
    by (auto simp: base_message_def)
  have keys_h: "''header'' \<in> fst ` set ?h \<longleftrightarrow>
              truthy (get_prop options ''imageMessage'') \<or> truthy (get_prop options ''title'')
              \<or> truthy (get_prop options ''subtitle'')"
    "''footer'' \<notin> fst ` set ?h"
    using keys_base by (auto simp: add_header_def Let_def dom_update)
  have k1: "''header'' \<in> fst ` set ?m \<longleftrightarrow>
              truthy (get_prop options ''imageMessage'') \<or> truthy (get_prop options ''title'')
              \<or> truthy (get_prop options ''subtitle'')"
    using keys_h(1) by (auto simp: add_footer_def dom_update)
  have k2: "''footer'' \<in> fst ` set ?m \<longleftrightarrow> truthy (get_prop options ''footerText'')"
    using keys_h(2) by (auto simp: add_footer_def dom_update)
  have f: "truthy (get_prop options ''footerText'') \<longrightarrow>
              map_of ?m ''footer'' = Some (JObj [(''text'', get_prop options ''footerText'')])"
    by (simp add: add_footer_def update_conv')
  have h: "truthy (get_prop options ''imageMessage'') \<or> truthy (get_prop options ''title'')
              \<or> truthy (get_prop options ''subtitle'') \<longrightarrow>
              map_of ?m ''header'' =
                Some (JObj ((''hasMediaAttachment'', JBool (truthy (get_prop options ''imageMessage'')))
                            # filter (\<lambda>p. truthy (snd p))
                                [(''imageMessage'', get_prop options ''imageMessage''),
                                 (''title'', get_prop options ''title''),
                                 (''subtitle'', get_prop options ''subtitle'')]))"
    by (simp add: map_of_add_footer) (simp add: add_header_def Let_def update_conv')
  have "createIOSWebviewMessage options = Inr (JObj [(''interactiveMessage'', JObj ?m)])"
    using accepted_returns[OF assms bs] by (simp add: message_of_def)
  then show ?thesis using k1 k2 f h by blast
qed

text \<open>
  The sample options have a title and no footer; the footer options have a footer and
  an empty title, hence no header.
\<close>

theorem header_and_footer_witness:
  "accepted sample_options
   \<and> (\<exists>m. createIOSWebviewMessage sample_options = Inr (JObj [(''interactiveMessage'', JObj m)])
         \<and> map_of m ''header'' =
             Some (JObj [(''hasMediaAttachment'', JBool False), (''title'', JStr ''Offer'')])
         \<and> ''footer'' \<notin> fst ` set m)
   \<and> accepted footer_options
   \<and> (\<exists>m. createIOSWebviewMessage footer_options = Inr (JObj [(''interactiveMessage'', JObj m)])
         \<and> ''header'' \<notin> fst ` set m
         \<and> map_of m ''footer'' = Some (JObj [(''text'', JStr ''Bye'')]))"
proof -
  have s: "get_prop sample_options ''imageMessage'' = JUndefined"
    "get_prop sample_options ''title'' = JStr ''Offer''"
    "get_prop sample_options ''subtitle'' = JUndefined"
    "get_prop sample_options ''footerText'' = JUndefined"
    by (simp_all add: sample_options_def)
  have f: "get_prop footer_options ''imageMessage'' = JUndefined"
    "get_prop footer_options ''title'' = JStr []"
    "get_prop footer_options ''subtitle'' = JUndefined"
    "get_prop footer_options ''footerText'' = JStr ''Bye''"
    by (simp_all add: footer_options_def)
  have a: "\<exists>m. createIOSWebviewMessage sample_options = Inr (JObj [(''interactiveMessage'', JObj m)])
         \<and> map_of m ''header'' =
             Some (JObj [(''hasMediaAttachment'', JBool False), (''title'', JStr ''Offer'')])
         \<and> ''footer'' \<notin> fst ` set m"
    using header_and_footer[OF sample_accepted(1)] by (auto simp: s)
  have b: "\<exists>m. createIOSWebviewMessage footer_options = Inr (JObj [(''interactiveMessage'', JObj m)])
         \<and> ''header'' \<notin> fst ` set m
         \<and> map_of m ''footer'' = Some (JObj [(''text'', JStr ''Bye'')])"
    using header_and_footer[OF footer_accepted] by (auto simp: f)
  show ?thesis using sample_accepted(1) footer_accepted a b by blast
qed

text \<open>
  C8. The \<^verbatim>\<open>contextInfo\<close> of the output is the shallow merge of
  \<^verbatim>\<open>{dataSharingContext: {showMmDisclosure: false}}\<close> with the caller's \<^verbatim>\<open>contextInfo\<close>, the
  caller's entries winning: it is exactly the default when no \<^verbatim>\<open>contextInfo\<close> is given, and
  for a caller's mapping (an object, whose keys are distinct) it maps each of the
  caller's keys to the caller's value, \<^verbatim>\<open>dataSharingContext\<close> to the default when the
  caller has no such key, and has no other key.
\<close>

theorem contextInfo_merge:
  assumes "accepted options"
  shows "\<exists>r c. createIOSWebviewMessage options = Inr r
         \<and> get_path r [''interactiveMessage'', ''contextInfo''] = JObj c
         \<and> (get_prop options ''contextInfo'' = JUndefined \<longrightarrow>
              c = [(''dataSharingContext'', JObj [(''showMmDisclosure'', JBool False)])])
         \<and> (\<forall>kvs. get_prop options ''contextInfo'' = JObj kvs \<and> distinct (map fst kvs) \<longrightarrow>
              map_of c =
                [''dataSharingContext'' \<mapsto> JObj [(''showMmDisclosure'', JBool False)]] ++ map_of kvs
              \<and> fst ` set c = insert ''dataSharingContext'' (fst ` set kvs)
              \<and> distinct (map fst c))"
proof -
  obtain bs where bs: "buttons_of options = JArr bs"
    using accepted_has_buttons[OF assms] by blast
  let ?base = "[(''dataSharingContext'', JObj [(''showMmDisclosure'', JBool False)])]"
  let ?c = "object_spread ?base (with_default (get_prop options ''contextInfo'') (JObj []))"
  have p: "get_path (JObj [(''interactiveMessage'', message_of options bs)])
             [''interactiveMessage'', ''contextInfo''] = JObj ?c"
    by (simp add: get_path_def message_of_contextInfo)
  have u: "get_prop options ''contextInfo'' = JUndefined \<longrightarrow> ?c = ?base"
    by (simp add: with_default_def object_spread_def spread_props_def)
  have o: "\<forall>kvs. get_prop options ''contextInfo'' = JObj kvs \<and> distinct (map fst kvs) \<longrightarrow>
              map_of ?c = [''dataSharingContext'' \<mapsto> JObj [(''showMmDisclosure'', JBool False)]] ++ map_of kvs
              \<and> fst ` set ?c = insert ''dataSharingContext'' (fst ` set kvs)
              \<and> distinct (map fst ?c)"
  proof (intro allI impI)
    fix kvs assume k: "get_prop options ''contextInfo'' = JObj kvs \<and> distinct (map fst kvs)"
    then have c: "?c = fold (\<lambda>(k, v). AList.update k v) kvs ?base"
      by (simp add: with_default_def object_spread_def spread_props_def)
    have "map_of (fold (\<lambda>(k, v). AList.update k v) kvs ?base) = map_of ?base ++ map_of kvs"
      using k by (simp add: map_of_fold_update map_of_rev_distinct)
    moreover have "fst ` set (fold (\<lambda>(k, v). AList.update k v) kvs ?base)
                     = insert ''dataSharingContext'' (fst ` set kvs)"
      by (simp add: fold_update_keys)
    moreover have "distinct (map fst (fold (\<lambda>(k, v). AList.update k v) kvs ?base))"
      by (rule fold_update_keys_distinct) simp
    ultimately show "map_of ?c = [''dataSharingContext'' \<mapsto> JObj [(''showMmDisclosure'', JBool False)]] ++ map_of kvs
              \<and> fst ` set ?c = insert ''dataSharingContext'' (fst ` set kvs)
              \<and> distinct (map fst ?c)"
      by (simp only: c) simp
  qed
  show ?thesis using accepted_returns[OF assms bs] p u o by blast
qed

text \<open>
  The sample options give no \<^verbatim>\<open>contextInfo\<close>; the footer options override
  \<^verbatim>\<open>dataSharingContext\<close> and add a key.
\<close>

theorem contextInfo_merge_witness:
  "accepted sample_options \<and> get_prop sample_options ''contextInfo'' = JUndefined
   \<and> (\<exists>r. createIOSWebviewMessage sample_options = Inr r
         \<and> get_path r [''interactiveMessage'', ''contextInfo'']
             = JObj [(''dataSharingContext'', JObj [(''showMmDisclosure'', JBool False)])])
   \<and> accepted footer_options
   \<and> (\<exists>r c. createIOSWebviewMessage footer_options = Inr r
         \<and> get_path r [''interactiveMessage'', ''contextInfo''] = JObj c
         \<and> map_of c ''dataSharingContext'' = Some (JObj [(''showMmDisclosure'', JBool True)])
         \<and> map_of c ''mentionedJid'' = Some (JArr [])
         \<and> fst ` set c = {''dataSharingContext'', ''mentionedJid''})"
proof -
  let ?kvs = "[(''mentionedJid'', JArr []),
               (''dataSharingContext'', JObj [(''showMmDisclosure'', JBool True)])]"
  have s: "get_prop sample_options ''contextInfo'' = JUndefined"
    by (simp add: sample_options_def)
  have f: "get_prop footer_options ''contextInfo'' = JObj ?kvs \<and> distinct (map fst ?kvs)"
    by (simp add: footer_options_def)
  have a: "\<exists>r. createIOSWebviewMessage sample_options = Inr r
         \<and> get_path r [''interactiveMessage'', ''contextInfo'']
             = JObj [(''dataSharingContext'', JObj [(''showMmDisclosure'', JBool False)])]"
  proof -
    from contextInfo_merge[OF sample_accepted(1)]
    obtain r c where rc: "createIOSWebviewMessage sample_options = Inr r
         \<and> get_path r [''interactiveMessage'', ''contextInfo''] = JObj c
         \<and> (get_prop sample_options ''contextInfo'' = JUndefined \<longrightarrow>
              c = [(''dataSharingContext'', JObj [(''showMmDisclosure'', JBool False)])])
         \<and> (\<forall>kvs. get_prop sample_options ''contextInfo'' = JObj kvs \<and> distinct (map fst kvs) \<longrightarrow>
              map_of c =
                [''dataSharingContext'' \<mapsto> JObj [(''showMmDisclosure'', JBool False)]] ++ map_of kvs
              \<and> fst ` set c = insert ''dataSharingContext'' (fst ` set kvs)
              \<and> distinct (map fst c))"
      by (elim exE)
    have "createIOSWebviewMessage sample_options = Inr r" using rc by (rule conjunct1)
    moreover have "get_path r [''interactiveMessage'', ''contextInfo''] = JObj c"
      using rc by (elim conjE)
    moreover have "c = [(''dataSharingContext'', JObj [(''showMmDisclosure'', JBool False)])]"
      using rc s by (elim conjE) (erule mp)
    ultimately show ?thesis by simp
  qed
  have b: "\<exists>r c. createIOSWebviewMessage footer_options = Inr r
         \<and> get_path r [''interactiveMessage'', ''contextInfo''] = JObj c
         \<and> map_of c ''dataSharingContext'' = Some (JObj [(''showMmDisclosure'', JBool True)])
         \<and> map_of c ''mentionedJid'' = Some (JArr [])
         \<and> fst ` set c = {''dataSharingContext'', ''mentionedJid''}"
  proof -
    from contextInfo_merge[OF footer_accepted]
    obtain r c where rc: "createIOSWebviewMessage footer_options = Inr r
         \<and> get_path r [''interactiveMessage'', ''contextInfo''] = JObj c
         \<and> (get_prop footer_options ''contextInfo'' = JUndefined \<longrightarrow>
              c = [(''dataSharingContext'', JObj [(''showMmDisclosure'', JBool False)])])
         \<and> (\<forall>kvs. get_prop footer_options ''contextInfo'' = JObj kvs \<and> distinct (map fst kvs) \<longrightarrow>
              map_of c =
                [''dataSharingContext'' \<mapsto> JObj [(''showMmDisclosure'', JBool False)]] ++ map_of kvs
              \<and> fst ` set c = insert ''dataSharingContext'' (fst ` set kvs)
              \<and> distinct (map fst c))"
      by (elim exE)
    have r: "createIOSWebviewMessage footer_options = Inr r" using rc by (rule conjunct1)
    have p: "get_path r [''interactiveMessage'', ''contextInfo''] = JObj c"
      using rc by (elim conjE)
    have o: "\<forall>kvs. get_prop footer_options ''contextInfo'' = JObj kvs \<and> distinct (map fst kvs) \<longrightarrow>
              map_of c =
                [''dataSharingContext'' \<mapsto> JObj [(''showMmDisclosure'', JBool False)]] ++ map_of kvs
              \<and> fst ` set c = insert ''dataSharingContext'' (fst ` set kvs)
              \<and> distinct (map fst c)"
      using rc by (elim conjE)
    have mk: "map_of c =
             [''dataSharingContext'' \<mapsto> JObj [(''showMmDisclosure'', JBool False)]] ++ map_of ?kvs
           \<and> fst ` set c = insert ''dataSharingContext'' (fst ` set ?kvs)
           \<and> distinct (map fst c)"
      by (rule o[rule_format, OF f])
    have m: "map_of c =
             [''dataSharingContext'' \<mapsto> JObj [(''showMmDisclosure'', JBool False)]] ++ map_of ?kvs"
      using mk by (rule conjunct1)
    have k: "fst ` set c = insert ''dataSharingContext'' (fst ` set ?kvs)"
      using mk by (elim conjE)
    have m1: "map_of c ''dataSharingContext'' = Some (JObj [(''showMmDisclosure'', JBool True)])"
      and m2: "map_of c ''mentionedJid'' = Some (JArr [])"
      unfolding m by simp_all
    have k': "fst ` set c = {''dataSharingContext'', ''mentionedJid''}"
      unfolding k by auto
    show ?thesis using r p m1 m2 k' by (intro exI conjI)
  qed
  show ?thesis using sample_accepted(1) s a footer_accepted b by (intro conjI)
qed

text \<open>
  C9, as the code has it. The claim, that no input options object makes the function
  throw, fails where the buttons are no array or hold \<^verbatim>\<open>undefined\<close> or \<^verbatim>\<open>null\<close>: on
  \<^verbatim>\<open>{buttons: [null]}\<close> reading \<^verbatim>\<open>button.type\<close> throws a TypeError.
\<close>

theorem null_button_throws:
  "createIOSWebviewMessage (JObj [(''buttons'', JArr [JNull])]) = Inl TypeError"
  by (simp add: createIOSWebviewMessage_def with_default_def nullish_def Array_map_def
        process_button_def)

text \<open>
  C9, amended. The function returns on exactly the accepted options: those that are
  neither \<^verbatim>\<open>undefined\<close> nor \<^verbatim>\<open>null\<close> and whose \<^verbatim>\<open>buttons\<close> are absent or an array with no
  \<^verbatim>\<open>undefined\<close> and no \<^verbatim>\<open>null\<close> element. On them it raises no exception and returns
  \<^verbatim>\<open>{interactiveMessage}\<close>, a function of the options alone; on every other input it throws
  a TypeError.
\<close>

theorem returns_exactly_when_accepted:
  "(accepted options \<longrightarrow>
      (\<exists>bs. buttons_of options = JArr bs
         \<and> createIOSWebviewMessage options = Inr (JObj [(''interactiveMessage'', message_of options bs)])))
   \<and> (\<not> accepted options \<longrightarrow> createIOSWebviewMessage options = Inl TypeError)"
  using accepted_has_buttons[of options] accepted_returns[of options]
    createIOSWebviewMessage_rejected[of options]
  by blast

text \<open>
  The sample options are accepted and return; \<^verbatim>\<open>{buttons: null}\<close> is not and throws.
\<close>

theorem returns_exactly_when_accepted_witness:
  "accepted sample_options
   \<and> (\<exists>bs. createIOSWebviewMessage sample_options
              = Inr (JObj [(''interactiveMessage'', message_of sample_options bs)]))
   \<and> \<not> accepted (JObj [(''buttons'', JNull)])
   \<and> createIOSWebviewMessage (JObj [(''buttons'', JNull)]) = Inl TypeError"
proof -
  have n: "\<not> accepted (JObj [(''buttons'', JNull)])"
    by (simp add: accepted_def buttons_of_def with_default_def)
  show ?thesis
    using sample_accepted(1) n returns_exactly_when_accepted[of sample_options]
      returns_exactly_when_accepted[of "JObj [(''buttons'', JNull)]"]
    by blast
qed

text \<open>
  C10. The failure branch of the \<^verbatim>\<open>try\<close> in the tap-target derivation is unreachable. The
  hypotheses name the values of lines 32 and 52 on a call that got that far: every button
  that passes the filter is a descriptor built in this call, whatever \<^verbatim>\<open>buttonParamsJson\<close>
  the input button carried; its \<^verbatim>\<open>buttonParamsJson\<close> is the text that \<^verbatim>\<open>JSON.stringify\<close> made of
  the params mapping, \<^verbatim>\<open>JSON.parse\<close> of it succeeds, and the body of the \<^verbatim>\<open>try\<close> completes
  with the two strings, so that the \<^verbatim>\<open>catch\<close> is never entered.
\<close>

theorem parse_failure_branch_unreachable:
  assumes "Array_map process_button bs = Inr processedButtons"
    and "Array_filter is_url_button processedButtons = Inr urlButtons"
    and "button \<in> set urlButtons"
  shows "\<exists>b \<in> set bs.
           button = JObj [(''name'', JStr ''cta_url''),
                          (''buttonParamsJson'', JSON_stringify (buttonParams b))]
         \<and> JSON_parse (get_prop button ''buttonParamsJson'') = Inr (json_image (buttonParams b))
         \<and> try_parse_urls button =
             Inr (js_or (get_prop (json_image (buttonParams b)) ''url'')
                    (js_or (get_prop (json_image (buttonParams b)) ''landing_page_url'') (JStr [])),
                  js_or (get_prop (json_image (buttonParams b)) ''landing_page_url'')
                    (js_or (get_prop (json_image (buttonParams b)) ''url'') (JStr [])))
         \<and> tapTarget button index =
             Inr (tap_target_of (canonical_url (json_image (buttonParams b))) index)"
proof -
  have na: "list_all (\<lambda>b. \<not> nullish b) bs" and ps: "processedButtons = map normalize_button bs"
    using Array_map_process_Inr[OF assms(1)] by simp_all
  have "urlButtons = map normalized (filter is_webview_button bs)"
    using assms(2) urlButtons_eq[OF na] by (simp add: ps)
  then obtain b where b: "b \<in> set bs" "button = normalized b" using assms(3) by auto
  have "get_prop (normalized b) ''buttonParamsJson'' = JSON_stringify (buttonParams b)"
    by (simp add: normalized_def)
  then show ?thesis
    using b try_parse_urls_normalized[of b] tapTarget_normalized[of b index]
      JSON_parse_buttonParams[of b]
    by (auto simp: normalized_def canonical_url_def)
qed

text \<open>
  On the sample buttons, for the descriptor of the first.
\<close>

theorem parse_failure_branch_unreachable_witness:
  "Array_map process_button sample_buttons = Inr (map normalize_button sample_buttons)
   \<and> Array_filter is_url_button (map normalize_button sample_buttons)
       = Inr (map normalized (filter is_webview_button sample_buttons))
   \<and> normalized sample_button \<in> set (map normalized (filter is_webview_button sample_buttons))
   \<and> (\<exists>b \<in> set sample_buttons.
         JSON_parse (get_prop (normalized sample_button) ''buttonParamsJson'')
           = Inr (json_image (buttonParams b))
         \<and> tapTarget (normalized sample_button) 0
           = Inr (tap_target_of (canonical_url (json_image (buttonParams b))) 0))"
proof -
  have na: "list_all (\<lambda>b. \<not> nullish b) sample_buttons"
    by (simp add: sample_buttons_def sample_button_def nullish_def)
  have a: "Array_map process_button sample_buttons = Inr (map normalize_button sample_buttons)"
    using na by (rule processedButtons_eq)
  have b: "Array_filter is_url_button (map normalize_button sample_buttons)
             = Inr (map normalized (filter is_webview_button sample_buttons))"
    using na by (rule urlButtons_eq)
  have c: "normalized sample_button \<in> set (map normalized (filter is_webview_button sample_buttons))"
    by (simp add: sample_buttons_def sample_button_def is_webview_button_def)
  show ?thesis
    using a b c parse_failure_branch_unreachable[OF a b c, of 0] by blast
qed

end
